theory Spec2Isabelle
  imports Main "HOL-Library.Word"
begin

unbundle bit_operations_syntax

section \<open>Addresses and networks\<close>

text \<open>
  Go's \<^verbatim>\<open>net.IP\<close> and \<^verbatim>\<open>net.IPMask\<close> are byte slices; \<^verbatim>\<open>net.IPNet\<close> is a
  struct of the two. For an IPv4 range \<^verbatim>\<open>net.ParseCIDR\<close> returns both as 4-byte
  slices.
\<close>

type_synonym byte = "8 word"
type_synonym ip = "byte list"

record ipnet =
  IP :: ip
  Mask :: ip

text \<open>
  \<^verbatim>\<open>incrementIP\<close> (main.go, lines 77 to 84):
  \<^verbatim>\<open>
  for j := len(ip) - 1; j >= 0; j-- {
      ip[j]++
      if ip[j] > 0 { break }
  }
  \<close>
  \<open>incrementIP_from n ip\<close> is the loop entered with \<open>j = n - 1\<close>; it returns when
  \<open>j\<close> has gone below \<open>0\<close>. The slice is mutated in place; the model returns
  the new contents. Byte addition wraps, as Go's \<^verbatim>\<open>++\<close> on a \<^verbatim>\<open>byte\<close> does.
\<close>

fun incrementIP_from :: "nat \<Rightarrow> ip \<Rightarrow> ip" where
  "incrementIP_from 0 ip = ip"
| "incrementIP_from (Suc j) ip =
     (let ip' = ip[j := ip ! j + 1]
      in if ip' ! j > 0 then ip' else incrementIP_from j ip')"

definition incrementIP :: "ip \<Rightarrow> ip" where
  "incrementIP ip = incrementIP_from (length ip) ip"

text \<open>
  The functions of Go's standard library \<^verbatim>\<open>net\<close> package that \<^verbatim>\<open>processCIDR\<close> calls,
  written out from the library's source. A \<^verbatim>\<open>nil\<close> slice is the empty list: Go's
  \<^verbatim>\<open>len\<close> and \<^verbatim>\<open>range\<close> do not tell them apart.
\<close>

definition IPv4len :: nat where "IPv4len = 4"
definition IPv6len :: nat where "IPv6len = 16"

definition v4InV6Prefix :: ip where
  "v4InV6Prefix = [0, 0, 0, 0, 0, 0, 0, 0, 0, 0, 0xff, 0xff]"

text \<open>\<^verbatim>\<open>CIDRMask(ones, bits)\<close>: \<open>ones\<close> one bits followed by zero bits, \<open>bits\<close> long.\<close>

fun CIDRMask_loop :: "nat \<Rightarrow> nat \<Rightarrow> ip" where
  "CIDRMask_loop 0 n = []"
| "CIDRMask_loop (Suc l) n =
     (if n \<ge> 8 then 0xff # CIDRMask_loop l (n - 8)
      else NOT (drop_bit n (0xff :: byte)) # CIDRMask_loop l 0)"

definition CIDRMask :: "int \<Rightarrow> int \<Rightarrow> ip" where
  "CIDRMask ones bits =
     (if bits \<noteq> 8 * int IPv4len \<and> bits \<noteq> 8 * int IPv6len then []
      else if ones < 0 \<or> ones > bits then []
      else CIDRMask_loop (nat (bits div 8)) (nat ones))"

text \<open>\<^verbatim>\<open>ip.To4()\<close>: the 4-byte form of an IPv4 address, \<^verbatim>\<open>nil\<close> for any other.\<close>

definition To4 :: "ip \<Rightarrow> ip" where
  "To4 ip =
     (if length ip = IPv4len then ip
      else if length ip = IPv6len \<and> take 12 ip = v4InV6Prefix then drop 12 ip
      else [])"

text \<open>
  \<^verbatim>\<open>ip.Mask(mask)\<close>: the bytewise AND, in a freshly allocated slice (so the loop of
  \<^verbatim>\<open>processCIDR\<close>, which mutates the result, never changes \<^verbatim>\<open>ipNet.IP\<close>).
\<close>

definition Mask_ip :: "ip \<Rightarrow> ip \<Rightarrow> ip" where
  "Mask_ip ip msk =
     (let msk' = (if length msk = IPv6len \<and> length ip = IPv4len
                     \<and> list_all (\<lambda>b. b = 0xff) (take 12 msk)
                  then drop 12 msk else msk);
          ip' = (if length msk' = IPv4len \<and> length ip = IPv6len
                   \<and> take 12 ip = v4InV6Prefix
                then drop 12 ip else ip)
      in if length ip' \<noteq> length msk' then []
         else map (\<lambda>(a, m). a AND m) (zip ip' msk'))"

definition networkNumberAndMask :: "ipnet \<Rightarrow> ip \<times> ip" where
  "networkNumberAndMask n =
     (let ip = To4 (IP n) in
      if ip = [] \<and> length (IP n) \<noteq> IPv6len then ([], [])
      else
        let ip = (if ip = [] then IP n else ip) in
        if length (Mask n) = IPv4len then
          (if length ip \<noteq> IPv4len then ([], []) else (ip, Mask n))
        else if length (Mask n) = IPv6len then
          (if length ip = IPv4len then (ip, drop 12 (Mask n)) else (ip, Mask n))
        else ([], []))"

text \<open>
  \<^verbatim>\<open>n.Contains(ip)\<close>:
  \<^verbatim>\<open>
  nn, m := networkNumberAndMask(n)
  if x := ip.To4(); x != nil { ip = x }
  l := len(ip)
  if l != len(nn) { return false }
  for i := 0; i < l; i++ {
      if nn[i]&m[i] != ip[i]&m[i] { return false }
  }
  return true
  \<close>
\<close>

definition Contains :: "ipnet \<Rightarrow> ip \<Rightarrow> bool" where
  "Contains n ip =
     (let (nn, m) = networkNumberAndMask n;
          ip = (if To4 ip \<noteq> [] then To4 ip else ip);
          l = length ip
      in if l \<noteq> length nn then False
         else list_all (\<lambda>i. nn ! i AND m ! i = ip ! i AND m ! i) [0..<l])"

text \<open>
  What \<^verbatim>\<open>net.ParseCIDR\<close> returns as \<^verbatim>\<open>ipNet\<close> for the text of an IPv4 address
  \<open>a\<close> (4 bytes) and a prefix length \<open>p\<close>:
  \<^verbatim>\<open>m := CIDRMask(p, 32); &IPNet{IP: a.Mask(m), Mask: m}\<close>.
\<close>

definition ipv4_net :: "ip \<Rightarrow> nat \<Rightarrow> ipnet" where
  "ipv4_net a p = (let m = CIDRMask (int p) 32 in \<lparr>IP = Mask_ip a m, Mask = m\<rparr>)"

section \<open>Range expansion\<close>

text \<open>
  The loop of \<^verbatim>\<open>processCIDR\<close> that feeds the workers (main.go, lines 121 to 127):
  \<^verbatim>\<open>
  for ip := ipNet.IP.Mask(ipNet.Mask); ipNet.Contains(ip); {
      ipCopy := make(net.IP, len(ip)); copy(ipCopy, ip)
      ipChan <- ipCopy
      incrementIP(ip)
  }
  \<close>
  \<open>enqueue n ip sent\<close> is the loop at the test of its condition, with \<open>sent\<close> the
  addresses already put on \<^verbatim>\<open>ipChan\<close>, oldest first. The loop has no bound of its own,
  so the model is a partial function: \<open>None\<close> means that the loop never ends.
\<close>

partial_function (option) enqueue :: "ipnet \<Rightarrow> ip \<Rightarrow> ip list \<Rightarrow> ip list option" where
  "enqueue n ip sent =
     (if Contains n ip then enqueue n (incrementIP ip) (sent @ [ip]) else Some sent)"

declare enqueue.simps [code]

definition enqueue_all :: "ipnet \<Rightarrow> ip list option" where
  "enqueue_all n = enqueue n (Mask_ip (IP n) (Mask n)) []"

text \<open>
  The addresses the same loop has put on \<^verbatim>\<open>ipChan\<close> once it has gone round at most
  \<open>k\<close> times: defined for every \<open>k\<close>, whether the loop ends or not.
\<close>

fun enqueue_steps :: "nat \<Rightarrow> ipnet \<Rightarrow> ip \<Rightarrow> ip list" where
  "enqueue_steps 0 n ip = []"
| "enqueue_steps (Suc k) n ip =
     (if Contains n ip then ip # enqueue_steps k n (incrementIP ip) else [])"

definition enqueued_after :: "nat \<Rightarrow> ipnet \<Rightarrow> ip list" where
  "enqueued_after k n = enqueue_steps k n (Mask_ip (IP n) (Mask n))"

text \<open>An address read as a number, most significant byte first.\<close>

fun ip_val :: "ip \<Rightarrow> nat" where
  "ip_val [] = 0"
| "ip_val (b # bs) = unat b * 256 ^ length bs + ip_val bs"

section \<open>Lookup, filters and the worker loop\<close>

text \<open>
  \<^verbatim>\<open>fetchHostnamesFromShodan\<close> (main.go, lines 29 to 74). The HTTP client is the
  outside world: the model takes it as a function from the address to what
  \<^verbatim>\<open>client.Get\<close> returns for the URL built from \<^verbatim>\<open>ip.String()\<close>. A response carries its
  status code and its body; the body is given by what
  \<^verbatim>\<open>goquery.NewDocumentFromReader\<close> makes of it: an error, or a document, of which
  only the \<^verbatim>\<open><b>\<close> elements matter, each with its text and the \<^verbatim>\<open>Data\<close> of its previous
  sibling (\<open>None\<close> when \<^verbatim>\<open>PrevSibling\<close> is \<^verbatim>\<open>nil\<close>). The log lines of verbose mode are
  left out.
\<close>

record b_selection =
  Text :: string
  PrevSibling :: "string option"

datatype document = Unparseable | Document "b_selection list"

datatype http_result = GetFailed | Response int document

type_synonym http_client = "ip \<Rightarrow> http_result"

definition StatusOK :: int where "StatusOK = 200"

text \<open>
  \<^verbatim>\<open>strings.TrimSpace\<close>. A Go string is a sequence of bytes, read as UTF-8; the
  function removes from both ends every rune for which \<^verbatim>\<open>unicode.IsSpace\<close> holds:
  U+0009 to U+000D, U+0020, U+0085, U+00A0, U+1680, U+2000 to U+200A, U+2028, U+2029,
  U+202F, U+205F and U+3000. \<open>space_runes\<close> are their UTF-8 encodings. Bytes that are
  not the encoding of a rune decode to \<^verbatim>\<open>utf8.RuneError\<close>, which is no white space, so
  the string starts (or ends) with a white space rune exactly when it starts (or
  ends) with one of these encodings; their widths are 1, 2 and 3 bytes.
\<close>

definition space_runes :: "nat list list" where
  "space_runes =
     [[0x09], [0x0A], [0x0B], [0x0C], [0x0D], [0x20],
      [0xC2, 0x85], [0xC2, 0xA0],
      [0xE1, 0x9A, 0x80],
      [0xE2, 0x80, 0x80], [0xE2, 0x80, 0x81], [0xE2, 0x80, 0x82], [0xE2, 0x80, 0x83],
      [0xE2, 0x80, 0x84], [0xE2, 0x80, 0x85], [0xE2, 0x80, 0x86], [0xE2, 0x80, 0x87],
      [0xE2, 0x80, 0x88], [0xE2, 0x80, 0x89], [0xE2, 0x80, 0x8A],
      [0xE2, 0x80, 0xA8], [0xE2, 0x80, 0xA9], [0xE2, 0x80, 0xAF],
      [0xE2, 0x81, 0x9F],
      [0xE3, 0x80, 0x80]]"

definition IsSpace :: "string \<Rightarrow> bool" where
  "IsSpace r = (map of_char r \<in> set space_runes)"

text \<open>The width of the white space rune a string starts with, or ends with; 0 for none.\<close>

definition leading_space :: "string \<Rightarrow> nat" where
  "leading_space s =
     (if 1 \<le> length s \<and> IsSpace (take 1 s) then 1
      else if 2 \<le> length s \<and> IsSpace (take 2 s) then 2
      else if 3 \<le> length s \<and> IsSpace (take 3 s) then 3
      else 0)"

definition trailing_space :: "string \<Rightarrow> nat" where
  "trailing_space s =
     (if 1 \<le> length s \<and> IsSpace (drop (length s - 1) s) then 1
      else if 2 \<le> length s \<and> IsSpace (drop (length s - 2) s) then 2
      else if 3 \<le> length s \<and> IsSpace (drop (length s - 3) s) then 3
      else 0)"

function TrimLeft :: "string \<Rightarrow> string" where
  "TrimLeft s = (if leading_space s = 0 then s else TrimLeft (drop (leading_space s) s))"
  by pat_completeness auto
termination
  by (relation "measure length") (auto simp: leading_space_def split: if_splits)

function TrimRight :: "string \<Rightarrow> string" where
  "TrimRight s =
     (if trailing_space s = 0 then s else TrimRight (take (length s - trailing_space s) s))"
  by pat_completeness auto
termination
  by (relation "measure length") (auto simp: trailing_space_def split: if_splits)

definition TrimSpace :: "string \<Rightarrow> string" where
  "TrimSpace s = TrimRight (TrimLeft s)"

fun b_hostnames :: "b_selection list \<Rightarrow> string list" where
  "b_hostnames [] = []"
| "b_hostnames (s # ss) =
     (case PrevSibling s of
        None \<Rightarrow> b_hostnames ss
      | Some d \<Rightarrow>
          if TrimSpace d \<noteq> [] then (TrimSpace d @ Text s) # b_hostnames ss
          else b_hostnames ss)"

definition fetchHostnamesFromShodan :: "http_client \<Rightarrow> ip \<Rightarrow> string list" where
  "fetchHostnamesFromShodan client ip =
     (case client ip of
        GetFailed \<Rightarrow> []
      | Response status body \<Rightarrow>
          if status \<noteq> StatusOK then []
          else (case body of
                  Unparseable \<Rightarrow> []
                | Document bs \<Rightarrow> b_hostnames bs))"

text \<open>
  The failed lookups: \<^verbatim>\<open>client.Get\<close> returns an error (a timeout is one), the status
  is not 200, or the body cannot be parsed.
\<close>

definition lookup_failed :: "http_result \<Rightarrow> bool" where
  "lookup_failed r =
     (case r of
        GetFailed \<Rightarrow> True
      | Response status body \<Rightarrow> status \<noteq> StatusOK \<or> body = Unparseable)"

text \<open>
  A compiled \<^verbatim>\<open>*regexp.Regexp\<close> is used through \<^verbatim>\<open>MatchString\<close> only: it is a
  predicate on strings, and a \<^verbatim>\<open>nil\<close> pointer is \<open>None\<close>.
\<close>

type_synonym regexp = "string \<Rightarrow> bool"

text \<open>
  The inner loop of a worker (main.go, lines 106 to 115), over the hostnames of one
  lookup; the result is what the worker sends on \<^verbatim>\<open>ch\<close>, in order:
  \<^verbatim>\<open>
  for _, hostname := range hostnames {
      if filter != nil && filter.MatchString(hostname) { continue }
      if match != nil && !match.MatchString(hostname) { continue }
      ch <- hostname
  }
  \<close>
\<close>

fun forward_hostnames :: "regexp option \<Rightarrow> regexp option \<Rightarrow> string list \<Rightarrow> string list" where
  "forward_hostnames filter_re match_re [] = []"
| "forward_hostnames filter_re match_re (hostname # hostnames) =
     (if filter_re \<noteq> None \<and> the filter_re hostname
        then forward_hostnames filter_re match_re hostnames
      else if match_re \<noteq> None \<and> \<not> the match_re hostname
        then forward_hostnames filter_re match_re hostnames
      else hostname # forward_hostnames filter_re match_re hostnames)"

text \<open>
  The body of a worker goroutine (main.go, lines 104 to 116), as a function of the
  addresses it receives from \<^verbatim>\<open>ipChan\<close>, in the order it receives them. The result
  is the lookups it has made and the hostnames it has sent on \<^verbatim>\<open>ch\<close>, both in
  order.
\<close>

fun worker :: "regexp option \<Rightarrow> regexp option \<Rightarrow> http_client \<Rightarrow> ip list \<Rightarrow> ip list \<times> string list" where
  "worker filter_re match_re client [] = ([], [])"
| "worker filter_re match_re client (ip # ips) =
     (let hostnames = fetchHostnamesFromShodan client ip;
          (lookups, sent) = worker filter_re match_re client ips
      in (ip # lookups, forward_hostnames filter_re match_re hostnames @ sent))"

section \<open>Flags and filters\<close>

text \<open>
  The flag variables of main.go, lines 19 to 26, with the defaults given to the
  \<^verbatim>\<open>flag\<close> package. \<open>flag_Parse\<close> is \<^verbatim>\<open>flag.Parse()\<close> on a command line already split
  into flags: each flag present overwrites its variable, the others keep their default.
\<close>

record flags =
  targetCIDR :: string
  listFile :: string
  concurrency :: int
  filterRegex :: string
  matchRegex :: string
  verbose :: bool

definition default_flags :: flags where
  "default_flags =
     \<lparr>targetCIDR = [], listFile = [], concurrency = 5,
      filterRegex = [], matchRegex = [], verbose = False\<rparr>"

datatype flag_arg =
    Flag_t string | Flag_l string | Flag_c int | Flag_f string | Flag_m string | Flag_v bool

fun set_flag :: "flags \<Rightarrow> flag_arg \<Rightarrow> flags" where
  "set_flag fl (Flag_t v) = fl\<lparr>targetCIDR := v\<rparr>"
| "set_flag fl (Flag_l v) = fl\<lparr>listFile := v\<rparr>"
| "set_flag fl (Flag_c v) = fl\<lparr>concurrency := v\<rparr>"
| "set_flag fl (Flag_f v) = fl\<lparr>filterRegex := v\<rparr>"
| "set_flag fl (Flag_m v) = fl\<lparr>matchRegex := v\<rparr>"
| "set_flag fl (Flag_v v) = fl\<lparr>verbose := v\<rparr>"

definition flag_Parse :: "flag_arg list \<Rightarrow> flags" where
  "flag_Parse args = foldl set_flag default_flags args"

text \<open>
  The filters (main.go, lines 181 to 189). \<^verbatim>\<open>regexp.MustCompile\<close> is a parameter: it
  gives the compiled pattern, or \<open>None\<close> where it panics.
  \<^verbatim>\<open>
  var filter *regexp.Regexp
  if *filterRegex != "" { filter = regexp.MustCompile(*filterRegex) }
  var match *regexp.Regexp
  if *matchRegex != "" { match = regexp.MustCompile(*matchRegex) }
  \<close>
\<close>

datatype error = RegexpPanic string | MakechanPanic

definition compile_flag :: "(string \<Rightarrow> regexp option) \<Rightarrow> string \<Rightarrow> error + regexp option" where
  "compile_flag MustCompile pat =
     (if pat \<noteq> [] then
        (case MustCompile pat of None \<Rightarrow> Inl (RegexpPanic pat) | Some re \<Rightarrow> Inr (Some re))
      else Inr None)"

definition compile_filters ::
  "(string \<Rightarrow> regexp option) \<Rightarrow> flags \<Rightarrow> error + (regexp option \<times> regexp option)" where
  "compile_filters MustCompile fl =
     (case compile_flag MustCompile (filterRegex fl) of
        Inl e \<Rightarrow> Inl e
      | Inr filter_re \<Rightarrow>
          (case compile_flag MustCompile (matchRegex fl) of
             Inl e \<Rightarrow> Inl e
           | Inr match_re \<Rightarrow> Inr (filter_re, match_re)))"

section \<open>The aggregator\<close>

text \<open>
  The loop of \<^verbatim>\<open>main\<close> that prints (main.go, lines 219 to 225):
  \<^verbatim>\<open>
  uniqueResults := make(map[string]struct{})
  for result := range ch {
      if _, exists := uniqueResults[result]; !exists {
          uniqueResults[result] = struct{}{}
          fmt.Println(result)
      }
  }
  \<close>
  The state is the set \<^verbatim>\<open>uniqueResults\<close> and the lines printed so far; \<open>print_unique\<close> is
  one turn of the loop, \<open>aggregate\<close> the loop over what arrives on \<^verbatim>\<open>ch\<close>.
\<close>

definition print_unique :: "string set \<times> string list \<Rightarrow> string \<Rightarrow> string set \<times> string list" where
  "print_unique st result =
     (if result \<in> fst st then st else (insert result (fst st), snd st @ [result]))"

definition aggregate :: "string list \<Rightarrow> string set \<times> string list" where
  "aggregate arrivals = foldl print_unique ({}, []) arrivals"

definition printed :: "string list \<Rightarrow> string list" where
  "printed arrivals = snd (aggregate arrivals)"

section \<open>The goroutines\<close>

text \<open>
  What does not change during a run: the worker count \<^verbatim>\<open>*concurrency\<close>, the two
  filters, the HTTP client, and \<^verbatim>\<open>net.ParseCIDR\<close>, which gives the text of its error
  (\<open>Inl\<close>) or the network (\<open>Inr\<close>).
\<close>

record config =
  cfg_concurrency :: int
  cfg_filter :: "regexp option"
  cfg_match :: "regexp option"
  cfg_client :: http_client
  cfg_ParseCIDR :: "string \<Rightarrow> string + ipnet"

text \<open>
  Where a worker goroutine of \<^verbatim>\<open>processCIDR\<close> (main.go, lines 102 to 117) stands:
  waiting for an address at \<^verbatim>\<open>range ipChan\<close>; inside
  \<^verbatim>\<open>fetchHostnamesFromShodan\<close> for the address it has received; in the loop over the
  hostnames of the lookup, with those it has yet to examine; or past the loop, after
  \<^verbatim>\<open>ipChan\<close> was closed.
\<close>

datatype worker_state =
    Receiving
  | Fetching ip
  | Forwarding "string list"
  | Finished

text \<open>
  Where the goroutine of \<^verbatim>\<open>processCIDR\<close> itself stands: before \<^verbatim>\<open>net.ParseCIDR\<close>, with
  the text of the range; at the test of the enqueuing loop, with the network and the
  current address; at \<^verbatim>\<open>localWg.Wait()\<close>, after \<^verbatim>\<open>close(ipChan)\<close>; or returned.
\<close>

datatype producer_state =
    Parsing string
  | Enqueuing ipnet ip
  | Waiting
  | Returned

record job =
  producer :: producer_state
  workers :: "worker_state list"

text \<open>
  The whole program after \<^verbatim>\<open>main\<close> has launched one \<^verbatim>\<open>processCIDR\<close> for each range
  (main.go, lines 207 to 210): the jobs, the content of the buffered channel \<^verbatim>\<open>ch\<close>
  (oldest first), whether \<^verbatim>\<open>ch\<close> is closed, the set \<^verbatim>\<open>uniqueResults\<close>, and the lines
  written to standard output and to standard error.
\<close>

record system =
  jobs :: "job list"
  ch :: "string list"
  ch_closed :: bool
  uniqueResults :: "string set"
  stdout :: "string list"
  stderr :: "string list"

definition init_system :: "string list \<Rightarrow> system" where
  "init_system cidrList =
     \<lparr>jobs = map (\<lambda>cidr. \<lparr>producer = Parsing cidr, workers = []\<rparr>) cidrList,
      ch = [], ch_closed = False, uniqueResults = {}, stdout = [], stderr = []\<rparr>"

text \<open>
  \<^verbatim>\<open>ch := make(chan string, *concurrency*10)\<close> (main.go, line 194). The product is one
  of Go's \<^verbatim>\<open>int\<close>, 64 bits wide here: it wraps. \<^verbatim>\<open>make\<close> panics on a negative size
  (\<^verbatim>\<open>makechan: size out of range\<close>), and \<^verbatim>\<open>main\<close> has then launched no job and printed
  nothing. (A size that the runtime cannot allocate ends the program too; the model
  has no bound on memory.) \<open>main_start\<close> is \<^verbatim>\<open>main\<close> from that line to the launch of the
  jobs, lines 207 to 210.
\<close>

definition int64_mul :: "int \<Rightarrow> int \<Rightarrow> int" where
  "int64_mul a b = sint (word_of_int (a * b) :: 64 word)"

definition ch_size :: "config \<Rightarrow> int" where
  "ch_size cfg = int64_mul (cfg_concurrency cfg) 10"

definition ch_capacity :: "config \<Rightarrow> nat" where
  "ch_capacity cfg = nat (ch_size cfg)"

definition main_start :: "config \<Rightarrow> string list \<Rightarrow> error + system" where
  "main_start cfg cidrList =
     (if ch_size cfg < 0 then Inl MakechanPanic else Inr (init_system cidrList))"

text \<open>\<^verbatim>\<open>fmt.Fprintf(os.Stderr, "Error parsing CIDR %s: %v\n", cidr, err)\<close>\<close>

definition parse_error_line :: "string \<Rightarrow> string \<Rightarrow> string" where
  "parse_error_line cidr err = ''Error parsing CIDR '' @ cidr @ '': '' @ err @ [CHR 0x0A]"

text \<open>
  The steps a scheduler can choose for one job. Each is one goroutine of the job going
  from one of its blocking points to the next:
  \<^item> \<open>Parse\<close>: \<^verbatim>\<open>processCIDR\<close> parses its range; on an error it writes the diagnostic and
    returns, otherwise it launches \<^verbatim>\<open>*concurrency\<close> workers and enters the loop;
  \<^item> \<open>Hand i\<close>: the loop condition holds and worker \<open>i\<close> waits at \<^verbatim>\<open>range ipChan\<close>:
    the copy of the address passes through the unbuffered \<^verbatim>\<open>ipChan\<close> and the loop
    increments its own;
  \<^item> \<open>CloseIpChan\<close>: the loop condition fails, \<^verbatim>\<open>close(ipChan)\<close>;
  \<^item> \<open>Fetch i\<close>: the lookup of worker \<open>i\<close> returns;
  \<^item> \<open>Examine i\<close>: worker \<open>i\<close> examines the next hostname: it drops it, or sends it on
    \<^verbatim>\<open>ch\<close>, which takes it when it is not full;
  \<^item> \<open>Next i\<close>: no hostname is left, worker \<open>i\<close> goes back to \<^verbatim>\<open>range ipChan\<close>;
  \<^item> \<open>Finish i\<close>: worker \<open>i\<close> finds \<^verbatim>\<open>ipChan\<close> closed and ends;
  \<^item> \<open>Return\<close>: \<^verbatim>\<open>localWg.Wait()\<close> returns, every worker having ended.
  A step that the job cannot take in its state is \<open>None\<close>. A step takes the job and
  the content of \<^verbatim>\<open>ch\<close> and gives both anew, with the lines it writes to standard
  error.
\<close>

datatype job_event =
    Parse | Hand nat | CloseIpChan | Fetch nat | Examine nat | Next nat | Finish nat | Return

fun job_step ::
  "config \<Rightarrow> job_event \<Rightarrow> job \<times> string list \<Rightarrow> (job \<times> string list \<times> string list) option" where
  "job_step cfg Parse (J, c) =
     (case producer J of
        Parsing cidr \<Rightarrow>
          (case cfg_ParseCIDR cfg cidr of
             Inl e \<Rightarrow> Some (J\<lparr>producer := Returned\<rparr>, c, [parse_error_line cidr e])
           | Inr n \<Rightarrow>
               Some (\<lparr>producer = Enqueuing n (Mask_ip (IP n) (Mask n)),
                      workers = replicate (nat (cfg_concurrency cfg)) Receiving\<rparr>, c, []))
      | _ \<Rightarrow> None)"
| "job_step cfg (Hand i) (J, c) =
     (case producer J of
        Enqueuing n ip \<Rightarrow>
          if Contains n ip \<and> i < length (workers J) \<and> workers J ! i = Receiving
          then Some (\<lparr>producer = Enqueuing n (incrementIP ip),
                      workers = (workers J)[i := Fetching ip]\<rparr>, c, [])
          else None
      | _ \<Rightarrow> None)"
| "job_step cfg CloseIpChan (J, c) =
     (case producer J of
        Enqueuing n ip \<Rightarrow>
          if \<not> Contains n ip then Some (J\<lparr>producer := Waiting\<rparr>, c, []) else None
      | _ \<Rightarrow> None)"
| "job_step cfg (Fetch i) (J, c) =
     (if i < length (workers J) then
        (case workers J ! i of
           Fetching ip \<Rightarrow>
             Some (J\<lparr>workers := (workers J)
                      [i := Forwarding (fetchHostnamesFromShodan (cfg_client cfg) ip)]\<rparr>, c, [])
         | _ \<Rightarrow> None)
      else None)"
| "job_step cfg (Examine i) (J, c) =
     (if i < length (workers J) then
        (case workers J ! i of
           Forwarding (hostname # hostnames) \<Rightarrow>
             if cfg_filter cfg \<noteq> None \<and> the (cfg_filter cfg) hostname
               then Some (J\<lparr>workers := (workers J)[i := Forwarding hostnames]\<rparr>, c, [])
             else if cfg_match cfg \<noteq> None \<and> \<not> the (cfg_match cfg) hostname
               then Some (J\<lparr>workers := (workers J)[i := Forwarding hostnames]\<rparr>, c, [])
             else if length c < ch_capacity cfg
               then Some (J\<lparr>workers := (workers J)[i := Forwarding hostnames]\<rparr>,
                          c @ [hostname], [])
             else None
         | _ \<Rightarrow> None)
      else None)"
| "job_step cfg (Next i) (J, c) =
     (if i < length (workers J) \<and> workers J ! i = Forwarding []
      then Some (J\<lparr>workers := (workers J)[i := Receiving]\<rparr>, c, [])
      else None)"
| "job_step cfg (Finish i) (J, c) =
     (if i < length (workers J) \<and> workers J ! i = Receiving \<and> producer J = Waiting
      then Some (J\<lparr>workers := (workers J)[i := Finished]\<rparr>, c, [])
      else None)"
| "job_step cfg Return (J, c) =
     (if producer J = Waiting \<and> list_all (\<lambda>w. w = Finished) (workers J)
      then Some (J\<lparr>producer := Returned\<rparr>, c, [])
      else None)"

text \<open>
  The steps of the whole program: a step of job \<open>j\<close>; \<open>CloseCh\<close>, the goroutine of
  main.go, lines 213 to 216, closing \<^verbatim>\<open>ch\<close> once every job has returned; and \<open>Print\<close>,
  one turn of the printing loop of \<^verbatim>\<open>main\<close> on the oldest hostname in \<^verbatim>\<open>ch\<close>.
\<close>

datatype event = Job nat job_event | CloseCh | Print

fun sched_step :: "config \<Rightarrow> system \<Rightarrow> event \<Rightarrow> system option" where
  "sched_step cfg s (Job j e) =
     (if j < length (jobs s) then
        (case job_step cfg e (jobs s ! j, ch s) of
           None \<Rightarrow> None
         | Some (J', c', lines) \<Rightarrow>
             Some (s\<lparr>jobs := (jobs s)[j := J'], ch := c', stderr := stderr s @ lines\<rparr>))
      else None)"
| "sched_step cfg s CloseCh =
     (if list_all (\<lambda>J. producer J = Returned) (jobs s) \<and> \<not> ch_closed s
      then Some (s\<lparr>ch_closed := True\<rparr>)
      else None)"
| "sched_step cfg s Print =
     (case ch s of
        [] \<Rightarrow> None
      | result # rest \<Rightarrow>
          (let (u, out) = print_unique (uniqueResults s, stdout s) result
           in Some (s\<lparr>ch := rest, uniqueResults := u, stdout := out\<rparr>)))"

text \<open>
  A run under a schedule: the steps in the order the scheduler has chosen them, \<open>None\<close>
  when one of them cannot be taken. Every interleaving of the goroutines is the run of
  some schedule.
\<close>

fun run :: "config \<Rightarrow> system \<Rightarrow> event list \<Rightarrow> system option" where
  "run cfg s [] = Some s"
| "run cfg s (e # es) =
     (case sched_step cfg s e of None \<Rightarrow> None | Some s' \<Rightarrow> run cfg s' es)"

text \<open>The lookups in flight in a job: its workers inside \<^verbatim>\<open>fetchHostnamesFromShodan\<close>.\<close>

fun is_Fetching :: "worker_state \<Rightarrow> bool" where
  "is_Fetching (Fetching ip) = True"
| "is_Fetching w = False"

definition in_flight :: "job \<Rightarrow> nat" where
  "in_flight J = length (filter is_Fetching (workers J))"

text \<open>
  The sequential loop the pool of one worker is compared with: one lookup after the
  other over the addresses in the order given, each hostname that passes the filters
  printed unless it was printed before.
\<close>

definition sequential_scan ::
  "regexp option \<Rightarrow> regexp option \<Rightarrow> http_client \<Rightarrow> ip list \<Rightarrow> string list" where
  "sequential_scan filter_re match_re client addrs =
     printed (snd (worker filter_re match_re client addrs))"

section \<open>Invariants of the goroutines\<close>

text \<open>
  Once a job has parsed its range it has \<^verbatim>\<open>*concurrency\<close> workers (main.go, line 100:
  \<^verbatim>\<open>for i := 0; i < *concurrency; i++\<close>), and it has none before, nor ever when the
  range was malformed.
\<close>

definition workers_launched :: "config \<Rightarrow> job \<Rightarrow> bool" where
  "workers_launched cfg J =
     (case producer J of
        Parsing cidr \<Rightarrow> workers J = []
      | Enqueuing n ip \<Rightarrow> length (workers J) = nat (cfg_concurrency cfg)
      | Waiting \<Rightarrow> length (workers J) = nat (cfg_concurrency cfg)
      | Returned \<Rightarrow> workers J = [] \<or> length (workers J) = nat (cfg_concurrency cfg))"

text \<open>
  For a pool of one worker: the address the enqueuing loop stands at after \<open>k\<close> rounds,
  and the hostnames one worker sends for a list of addresses.
\<close>

definition addr_at :: "ipnet \<Rightarrow> nat \<Rightarrow> ip" where
  "addr_at n k = (incrementIP ^^ k) (Mask_ip (IP n) (Mask n))"

definition sent_for :: "config \<Rightarrow> ip list \<Rightarrow> string list" where
  "sent_for cfg addrs = snd (worker (cfg_filter cfg) (cfg_match cfg) (cfg_client cfg) addrs)"

text \<open>
  For a pool of one worker, after \<open>k\<close> rounds of the enqueuing loop, \<open>arrived\<close> being
  every hostname that has reached \<^verbatim>\<open>ch\<close> so far: what the worker has sent is what a
  sequential loop would have sent when it stood at the same address.
\<close>

definition worker1_inv :: "config \<Rightarrow> ipnet \<Rightarrow> nat \<Rightarrow> string list \<Rightarrow> worker_state \<Rightarrow> bool" where
  "worker1_inv cfg n k arrived w =
     (case w of
        Receiving \<Rightarrow> arrived = sent_for cfg (enqueued_after k n)
      | Fetching ip \<Rightarrow>
          0 < k \<and> ip = addr_at n (k - 1) \<and> arrived = sent_for cfg (enqueued_after (k - 1) n)
      | Forwarding hostnames \<Rightarrow>
          arrived @ forward_hostnames (cfg_filter cfg) (cfg_match cfg) hostnames
            = sent_for cfg (enqueued_after k n)
      | Finished \<Rightarrow> arrived = sent_for cfg (enqueued_after k n))"

definition job1_inv :: "config \<Rightarrow> string \<Rightarrow> ipnet \<Rightarrow> nat \<Rightarrow> string list \<Rightarrow> job \<Rightarrow> bool" where
  "job1_inv cfg cidr n k arrived J =
     (length (enqueued_after k n) = k \<and>
      (case producer J of
         Parsing c \<Rightarrow> c = cidr \<and> workers J = [] \<and> k = 0 \<and> arrived = []
       | Enqueuing n' ip \<Rightarrow>
           n' = n \<and> ip = addr_at n k \<and> length (workers J) = 1
           \<and> hd (workers J) \<noteq> Finished \<and> worker1_inv cfg n k arrived (hd (workers J))
       | Waiting \<Rightarrow>
           \<not> Contains n (addr_at n k) \<and> length (workers J) = 1
           \<and> worker1_inv cfg n k arrived (hd (workers J))
       | Returned \<Rightarrow>
           \<not> Contains n (addr_at n k) \<and> workers J = [Finished]
           \<and> arrived = sent_for cfg (enqueued_after k n)))"

text \<open>
  The same for the whole program with one range, \<open>consumed\<close> being the hostnames the
  printing loop has taken from \<^verbatim>\<open>ch\<close>.
\<close>

definition system1_inv :: "config \<Rightarrow> string \<Rightarrow> ipnet \<Rightarrow> nat \<Rightarrow> string list \<Rightarrow> system \<Rightarrow> bool" where
  "system1_inv cfg cidr n k consumed s =
     (length (jobs s) = 1 \<and> uniqueResults s = set consumed \<and> stdout s = printed consumed
      \<and> (ch_closed s \<longrightarrow> producer (hd (jobs s)) = Returned)
      \<and> job1_inv cfg cidr n k (consumed @ ch s) (hd (jobs s)))"

section \<open>A malformed range among others\<close>






section \<open>A scenario\<close>

text \<open>
  A mock of the lookup service and of the parser, for one worker and the range
  10.0.0.0/31, and a schedule that runs the program to its end.
\<close>

definition scenario_client :: http_client where
  "scenario_client ip =
     (if ip = [10, 0, 0, 0] then
        Response 200 (Document [\<lparr>Text = ''.example.com'', PrevSibling = Some ''a''\<rparr>])
      else if ip = [10, 0, 0, 1] then
        Response 200 (Document [\<lparr>Text = ''.example.com'', PrevSibling = Some '' b''\<rparr>,
                                \<lparr>Text = ''.example.com'', PrevSibling = Some ''a''\<rparr>])
      else GetFailed)"

definition scenario_ParseCIDR :: "string \<Rightarrow> string + ipnet" where
  "scenario_ParseCIDR cidr =
     (if cidr = ''10.0.0.0/31'' then Inr (ipv4_net [10, 0, 0, 0] 31)
      else Inl (''invalid CIDR address: '' @ cidr))"

definition scenario_config :: config where
  "scenario_config =
     \<lparr>cfg_concurrency = 1, cfg_filter = None, cfg_match = None,
      cfg_client = scenario_client, cfg_ParseCIDR = scenario_ParseCIDR\<rparr>"

definition scenario_schedule :: "event list" where
  "scenario_schedule =
     [Job 0 Parse,
      Job 0 (Hand 0), Job 0 (Fetch 0), Job 0 (Examine 0), Job 0 (Next 0),
      Job 0 (Hand 0), Job 0 (Fetch 0), Job 0 (Examine 0), Print, Job 0 (Examine 0),
      Job 0 (Next 0), Job 0 CloseIpChan, Job 0 (Finish 0), Job 0 Return,
      Print, CloseCh, Print]"

section \<open>Properties of the address arithmetic\<close>

lemma length_incrementIP_from: "length (incrementIP_from j ip) = length ip"
  by (induction j arbitrary: ip) (auto simp: Let_def)

lemma length_incrementIP: "length (incrementIP ip) = length ip"
  by (simp add: incrementIP_def length_incrementIP_from)

lemma incrementIP_from_append:
  "j \<le> length xs \<Longrightarrow> incrementIP_from j (xs @ ys) = incrementIP_from j xs @ ys"
  by (induction j arbitrary: xs) (auto simp: Let_def nth_append list_update_append1)

lemma incrementIP_snoc:
  "incrementIP (xs @ [b]) = (if b + 1 \<noteq> 0 then xs @ [b + 1] else incrementIP xs @ [0])"
  by (auto simp: incrementIP_def Let_def incrementIP_from_append word_greater_zero_iff)

lemma ip_val_snoc: "ip_val (xs @ [b]) = ip_val xs * 256 + unat b"
  by (induction xs) (auto simp: algebra_simps)

lemma ip_val_lt: "ip_val ip < 256 ^ length ip"
proof (induction ip)
  case Nil then show ?case by simp
next
  case (Cons b bs)
  have "unat b < 2 ^ LENGTH(8)" by (rule unsigned_less)
  then have "unat b \<le> 255" by simp
  then have a: "(unat b + 1) * 256 ^ length bs \<le> 256 * (256 ^ length bs :: nat)"
    by (intro mult_le_mono1) simp
  have b: "unat b * 256 ^ length bs + ip_val bs < (unat b + 1) * 256 ^ length bs"
    using Cons by simp
  have "unat b * 256 ^ length bs + ip_val bs < 256 * (256 ^ length bs :: nat)"
    by (rule less_le_trans[OF b a])
  then show ?case by simp
qed

lemma unat_byte_succ: "(b::byte) + 1 \<noteq> 0 \<Longrightarrow> unat (b + 1) = unat b + 1"
  by (simp add: add.commute unatSuc)

lemma unat_byte_max: "(b::byte) + 1 = 0 \<Longrightarrow> unat b = 255"
proof -
  assume "b + 1 = 0"
  then have "b = - 1" by (simp add: add_eq_0_iff2)
  then show ?thesis by (simp add: unsigned_minus_1_eq_mask mask_eq_exp_minus_1)
qed

lemma ip_val_incrementIP: "ip_val (incrementIP ip) = (ip_val ip + 1) mod 256 ^ length ip"
proof (induction ip rule: rev_induct)
  case Nil then show ?case by (simp add: incrementIP_def)
next
  case (snoc b xs)
  show ?case
  proof (cases "b + 1 = 0")
    case False
    have "ip_val xs * 256 + unat b + 1 < 256 ^ length (xs @ [b])"
      using ip_val_lt[of "xs @ [b + 1]"] False by (simp add: ip_val_snoc unat_byte_succ)
    then show ?thesis using False by (simp add: incrementIP_snoc ip_val_snoc unat_byte_succ)
  next
    case True
    have "(ip_val xs * 256 + unat b + 1) mod 256 ^ length (xs @ [b]) = ((ip_val xs + 1) * 256) mod (256 ^ length xs * 256)"
      using True by (simp add: unat_byte_max algebra_simps)
    also have "\<dots> = ((ip_val xs + 1) mod 256 ^ length xs) * 256"
      by (simp only: mult_mod_left)
    finally show ?thesis using True snoc by (simp add: incrementIP_snoc ip_val_snoc)
  qed
qed

lemma ip_val_inj: "length xs = length ys \<Longrightarrow> ip_val xs = ip_val ys \<Longrightarrow> xs = ys"
proof (induction xs ys rule: list_induct2)
  case Nil then show ?case by simp
next
  case (Cons x xs y ys)
  let ?k = "256 ^ length xs :: nat"
  from Cons.prems Cons.hyps have eq: "unat x * ?k + ip_val xs = unat y * ?k + ip_val ys" by simp
  have lx: "ip_val xs < ?k" by (rule ip_val_lt)
  have ly: "ip_val ys < ?k" using ip_val_lt[of ys] Cons.hyps by simp
  have "(unat x * ?k + ip_val xs) div ?k = unat x" using lx by simp
  moreover have "(unat y * ?k + ip_val ys) div ?k = unat y" using ly by simp
  ultimately have "unat x = unat y" using eq by simp
  then have "x = y" by (simp add: word_unat_eq_iff)
  moreover have "ip_val xs = ip_val ys" using eq \<open>unat x = unat y\<close> by simp
  ultimately show ?case using Cons.IH by simp
qed

lemma and_not_mask_shift: "(x::byte) AND NOT (mask k) = push_bit k (drop_bit k x)"
  by (rule bit_eqI) (auto simp: bit_simps)

lemma mask_byte: "NOT (drop_bit n (0xff::byte)) = NOT (mask (8 - n))"
proof -
  have "(0xff::byte) = mask 8" by (simp add: mask_eq_exp_minus_1)
  moreover have "drop_bit n (mask 8 :: byte) = mask (8 - n)"
    by (rule bit_eqI) (auto simp: bit_simps)
  ultimately show ?thesis by simp
qed

lemma unat_and_top_bits: "unat ((x::byte) AND NOT (drop_bit n 0xff)) = (unat x div 2^(8-n)) * 2^(8-n)"
proof -
  let ?k = "8 - n"
  have le: "(unat x div 2^?k) * 2^?k \<le> unat x" by simp
  have "unat x < 2 ^ LENGTH(8)" by (rule unsigned_less)
  then have "unat x < 2 ^ 8" by simp
  with le have lt: "(unat x div 2^?k) * 2^?k < 2 ^ 8" by (rule le_less_trans)
  have "unat (x AND NOT (drop_bit n 0xff)) = unat (push_bit ?k (drop_bit ?k x))"
    by (simp only: mask_byte and_not_mask_shift)
  also have "\<dots> = take_bit LENGTH(8) (push_bit ?k (drop_bit ?k (unat x)))"
    by (simp only: unsigned_push_bit_eq unat_drop_bit_eq)
  also have "\<dots> = ((unat x div 2^?k) * 2^?k) mod 2 ^ 8"
    by (simp add: take_bit_eq_mod push_bit_eq_mult drop_bit_eq_div)
  also have "\<dots> = (unat x div 2^?k) * 2^?k" using lt by simp
  finally show ?thesis .
qed

lemma and_top_bits_eq_iff: "((x::byte) AND NOT (drop_bit n 0xff) = y AND NOT (drop_bit n 0xff)) \<longleftrightarrow> unat x div 2^(8-n) = unat y div 2^(8-n)"
proof -
  have "(x AND NOT (drop_bit n 0xff) = y AND NOT (drop_bit n 0xff)) \<longleftrightarrow>
        unat (x AND NOT (drop_bit n 0xff)) = unat (y AND NOT (drop_bit n 0xff))"
    by (simp add: word_unat_eq_iff)
  also have "\<dots> \<longleftrightarrow> unat x div 2^(8-n) = unat y div 2^(8-n)"
    by (simp only: unat_and_top_bits) simp
  finally show ?thesis .
qed

lemma length_CIDRMask_loop: "length (CIDRMask_loop l n) = l"
  by (induction l arbitrary: n) auto

lemma CIDRMask_loop_0: "CIDRMask_loop l 0 = replicate l 0"
  by (induction l) auto

lemma and_ff: "(x::byte) AND 0xff = x"
proof -
  have "(0xff::byte) = - 1" by simp
  then show ?thesis by (simp only: and.right_neutral)
qed

lemma power_256: "(256::nat) ^ l = 2 ^ (8 * l)"
proof -
  have "(256::nat) = 2 ^ 8" by simp
  then show ?thesis by (simp only: power_mult)
qed

lemma ip_val_and_mask:
  "length xs = l \<Longrightarrow> n \<le> 8 * l \<Longrightarrow>
   ip_val (map (\<lambda>(a, m). a AND m) (zip xs (CIDRMask_loop l n))) = (ip_val xs div 2 ^ (8 * l - n)) * 2 ^ (8 * l - n)"
proof (induction l arbitrary: xs n)
  case 0 then show ?case by simp
next
  case (Suc l)
  then obtain x xs' where xs: "xs = x # xs'" and len: "length xs' = l" by (cases xs) auto
  have vlt: "ip_val xs' < 2 ^ (8 * l)" using ip_val_lt[of xs'] len by (simp add: power_256)
  show ?case
  proof (cases "n \<ge> 8")
    case True
    then have n8: "n - 8 \<le> 8 * l" using Suc.prems by simp
    let ?h = "8 * l - (n - 8)"
    have e: "8 * Suc l - n = ?h" using True by simp
    have p: "(2::nat) ^ (8 * l) = 2 ^ (8 * l - ?h) * 2 ^ ?h"
      by (simp add: power_add[symmetric])
    have d: "(unat x * 2 ^ (8 * l) + ip_val xs') div 2 ^ ?h = unat x * 2 ^ (8 * l - ?h) + ip_val xs' div 2 ^ ?h"
      by (simp only: p mult.assoc[symmetric]) simp
    have "ip_val (map (\<lambda>(a, m). a AND m) (zip xs (CIDRMask_loop (Suc l) n)))
          = unat x * 2 ^ (8 * l) + (ip_val xs' div 2 ^ ?h) * 2 ^ ?h"
      using True Suc.IH[OF len n8] by (simp add: xs len length_CIDRMask_loop power_256 and_ff)
    also have "\<dots> = (unat x * 2 ^ (8 * l - ?h) + ip_val xs' div 2 ^ ?h) * 2 ^ ?h"
      by (simp add: add_mult_distrib mult.assoc p[symmetric])
    also have "\<dots> = ((unat x * 2 ^ (8 * l) + ip_val xs') div 2 ^ ?h) * 2 ^ ?h"
      by (simp only: d)
    finally have f: "ip_val (map (\<lambda>(a, m). a AND m) (zip xs (CIDRMask_loop (Suc l) n)))
         = ((unat x * 2 ^ (8 * l) + ip_val xs') div 2 ^ ?h) * 2 ^ ?h" .
    have g: "ip_val xs = unat x * 2 ^ (8 * l) + ip_val xs'" by (simp add: xs len power_256)
    show ?thesis by (simp only: e g f)
  next
    case False
    let ?k = "8 - n"
    have e: "8 * Suc l - n = 8 * l + ?k" using False by simp
    have z: "ip_val (map (\<lambda>(a, m). a AND m) (zip xs' (CIDRMask_loop l 0))) = 0"
      using Suc.IH[OF len, of 0] vlt by simp
    have d: "(unat x * 2 ^ (8 * l) + ip_val xs') div 2 ^ (8 * l + ?k) = unat x div 2 ^ ?k"
      using vlt by (simp add: power_add div_mult2_eq)
    have "ip_val (map (\<lambda>(a, m). a AND m) (zip xs (CIDRMask_loop (Suc l) n)))
          = (unat x div 2 ^ ?k) * 2 ^ ?k * 2 ^ (8 * l)"
      using False z by (simp add: xs len unat_and_top_bits power_256 length_CIDRMask_loop)
    also have "\<dots> = ((unat x * 2 ^ (8 * l) + ip_val xs') div 2 ^ (8 * l + ?k)) * 2 ^ (8 * l + ?k)"
      by (simp only: d) (simp add: power_add)
    finally have f: "ip_val (map (\<lambda>(a, m). a AND m) (zip xs (CIDRMask_loop (Suc l) n)))
         = ((unat x * 2 ^ (8 * l) + ip_val xs') div 2 ^ (8 * l + ?k)) * 2 ^ (8 * l + ?k)" .
    have g: "ip_val xs = unat x * 2 ^ (8 * l) + ip_val xs'" by (simp add: xs len power_256)
    show ?thesis by (simp only: e g f)
  qed
qed

lemma map2_and_eq_iff:
  "length xs = l \<Longrightarrow> length ys = l \<Longrightarrow> n \<le> 8 * l \<Longrightarrow>
   (map (\<lambda>(a, m). a AND m) (zip xs (CIDRMask_loop l n)) = map (\<lambda>(a, m). a AND m) (zip ys (CIDRMask_loop l n)))
    \<longleftrightarrow> ip_val xs div 2 ^ (8 * l - n) = ip_val ys div 2 ^ (8 * l - n)"
proof -
  assume a: "length xs = l" "length ys = l" "n \<le> 8 * l"
  let ?f = "\<lambda>zs. map (\<lambda>(a, m). a AND m) (zip zs (CIDRMask_loop l n))"
  have L: "length (?f xs) = length (?f ys)" using a by (simp add: length_CIDRMask_loop)
  have "?f xs = ?f ys \<longleftrightarrow> ip_val (?f xs) = ip_val (?f ys)"
  proof
    assume "?f xs = ?f ys" then show "ip_val (?f xs) = ip_val (?f ys)" by simp
  next
    assume "ip_val (?f xs) = ip_val (?f ys)" then show "?f xs = ?f ys" by (rule ip_val_inj[OF L])
  qed
  also have "\<dots> \<longleftrightarrow> ip_val xs div 2 ^ (8 * l - n) = ip_val ys div 2 ^ (8 * l - n)"
    using a by (simp add: ip_val_and_mask)
  finally show ?thesis .
qed

lemma CIDRMask_v4: "p \<le> 32 \<Longrightarrow> CIDRMask (int p) 32 = CIDRMask_loop 4 p"
  by (simp add: CIDRMask_def IPv4len_def IPv6len_def)

lemma Mask_ip_v4:
  "length a = 4 \<Longrightarrow> length m = 4 \<Longrightarrow> Mask_ip a m = map (\<lambda>(a, m). a AND m) (zip a m)"
  by (simp add: Mask_ip_def IPv4len_def IPv6len_def)

lemma ipv4_net_simps:
  assumes "length a = 4" "p \<le> 32"
  shows "IP (ipv4_net a p) = map (\<lambda>(a, m). a AND m) (zip a (CIDRMask_loop 4 p))"
    and "Mask (ipv4_net a p) = CIDRMask_loop 4 p"
    and "length (IP (ipv4_net a p)) = 4"
  using assms by (simp_all add: ipv4_net_def Let_def CIDRMask_v4 Mask_ip_v4 length_CIDRMask_loop)

lemma ip_val_network:
  assumes "length a = 4" "p \<le> 32"
  shows "ip_val (IP (ipv4_net a p)) = (ip_val a div 2 ^ (32 - p)) * 2 ^ (32 - p)"
  using assms ip_val_and_mask[of a 4 p] by (simp add: ipv4_net_simps)

lemma Contains_v4:
  assumes "length a = 4" "p \<le> 32" "length ip = 4"
  shows "Contains (ipv4_net a p) ip \<longleftrightarrow> ip_val ip div 2 ^ (32 - p) = ip_val a div 2 ^ (32 - p)"
proof -
  let ?n = "ipv4_net a p" and ?m = "CIDRMask_loop 4 p"
  let ?f = "\<lambda>zs. map (\<lambda>(a, m). a AND m) (zip zs ?m)"
  have nn: "networkNumberAndMask ?n = (IP ?n, ?m)"
    using assms by (auto simp: networkNumberAndMask_def To4_def IPv4len_def IPv6len_def ipv4_net_simps length_CIDRMask_loop Let_def)
  have "Contains ?n ip \<longleftrightarrow> (\<forall>i<4. IP ?n ! i AND ?m ! i = ip ! i AND ?m ! i)"
    using assms by (auto simp: Contains_def nn To4_def IPv4len_def ipv4_net_simps(3) list_all_iff)
  also have "\<dots> \<longleftrightarrow> ?f (IP ?n) = ?f ip"
    using assms by (simp add: list_eq_iff_nth_eq length_CIDRMask_loop ipv4_net_simps(3))
  also have "\<dots> \<longleftrightarrow> ip_val (IP ?n) div 2 ^ (32 - p) = ip_val ip div 2 ^ (32 - p)"
    using map2_and_eq_iff[of "IP ?n" 4 ip p] assms by (simp add: ipv4_net_simps(3))
  also have "\<dots> \<longleftrightarrow> ip_val ip div 2 ^ (32 - p) = ip_val a div 2 ^ (32 - p)"
    using assms by (auto simp: ip_val_network)
  finally show ?thesis .
qed

lemma start_v4:
  assumes "length a = 4" "p \<le> 32"
  shows "Mask_ip (IP (ipv4_net a p)) (Mask (ipv4_net a p)) = IP (ipv4_net a p)"
proof -
  let ?n = "ipv4_net a p"
  have l: "length (Mask_ip (IP ?n) (Mask ?n)) = length (IP ?n)"
    using assms by (simp add: Mask_ip_v4 ipv4_net_simps length_CIDRMask_loop)
  have "ip_val (Mask_ip (IP ?n) (Mask ?n)) = (ip_val (IP ?n) div 2 ^ (32 - p)) * 2 ^ (32 - p)"
    using assms ip_val_and_mask[of "IP ?n" 4 p]
    by (simp add: Mask_ip_v4 ipv4_net_simps(2,3) length_CIDRMask_loop)
  also have "\<dots> = ip_val (IP ?n)" using assms by (simp add: ip_val_network)
  finally show ?thesis by (rule ip_val_inj[OF l])
qed

lemma network_bound:
  assumes "length a = 4" "p \<le> 32"
  shows "ip_val (IP (ipv4_net a p)) + 2 ^ (32 - p) \<le> 2 ^ 32"
proof -
  let ?h = "32 - p"
  have "ip_val a < 2 ^ 32" using ip_val_lt[of a] assms by simp
  also have "(2::nat) ^ 32 = 2 ^ p * 2 ^ ?h" using assms by (simp add: power_add[symmetric])
  finally have "ip_val a div 2 ^ ?h < 2 ^ p" by (simp add: less_mult_imp_div_less)
  then have "ip_val a div 2 ^ ?h + 1 \<le> 2 ^ p" by simp
  then have "(ip_val a div 2 ^ ?h + 1) * 2 ^ ?h \<le> 2 ^ p * 2 ^ ?h" by (rule mult_le_mono1)
  also have "2 ^ p * 2 ^ ?h = (2::nat) ^ 32" using assms by (simp add: power_add[symmetric])
  finally show ?thesis using assms by (simp add: ip_val_network)
qed

lemma Contains_offset:
  assumes "length a = 4" "p \<le> 32" "length ip = 4"
    and "ip_val ip = ip_val (IP (ipv4_net a p)) + j" "j < 2 ^ (32 - p)"
  shows "Contains (ipv4_net a p) ip"
  using assms by (simp add: Contains_v4 ip_val_network)

lemma not_Contains_past_end:
  assumes "length a = 4" "1 \<le> p" "p \<le> 32" "length ip = 4"
    and "ip_val ip = (ip_val (IP (ipv4_net a p)) + 2 ^ (32 - p)) mod 2 ^ 32"
  shows "\<not> Contains (ipv4_net a p) ip"
proof -
  let ?h = "32 - p" and ?c = "ip_val a div 2 ^ (32 - p)"
  have b: "?c * 2 ^ ?h + 2 ^ ?h \<le> 2 ^ 32"
    using network_bound[OF assms(1,3)] assms by (simp add: ip_val_network)
  have v: "ip_val ip = (?c * 2 ^ ?h + 2 ^ ?h) mod 2 ^ 32"
    using assms by (simp add: ip_val_network)
  have "ip_val ip div 2 ^ ?h \<noteq> ?c"
  proof (cases "?c * 2 ^ ?h + 2 ^ ?h = 2 ^ 32")
    case True
    then have "ip_val ip = 0" using v by simp
    moreover have "?c \<noteq> 0"
    proof
      assume "?c = 0"
      with True have "(2::nat) ^ ?h = 2 ^ 32" by simp
      then have "?h = 32" by (subst (asm) power_inject_exp) simp_all
      with assms show False by simp
    qed
    ultimately show ?thesis by simp
  next
    case False
    with b have "?c * 2 ^ ?h + 2 ^ ?h < 2 ^ 32" by simp
    then have "ip_val ip = (?c + 1) * 2 ^ ?h" using v by simp
    then show ?thesis by simp
  qed
  then show ?thesis using assms by (simp add: Contains_v4)
qed

lemma enqueue_from:
  assumes "length a = 4" "1 \<le> p" "p \<le> 32"
  shows "length ip = 4 \<Longrightarrow> ip_val ip + k = ip_val (IP (ipv4_net a p)) + 2 ^ (32 - p) \<Longrightarrow>
         ip_val (IP (ipv4_net a p)) \<le> ip_val ip \<Longrightarrow> 0 < k \<Longrightarrow>
         \<exists>rest. enqueue (ipv4_net a p) ip sent = Some (sent @ rest)
              \<and> map ip_val rest = [ip_val ip ..< ip_val ip + k]
              \<and> list_all (\<lambda>r. length r = 4) rest"
proof (induction k arbitrary: ip sent)
  case 0 then show ?case by simp
next
  case (Suc k)
  let ?n = "ipv4_net a p" and ?ip' = "incrementIP ip"
  let ?base = "ip_val (IP ?n)"
  have c: "Contains ?n ip"
    using Suc.prems assms Contains_offset[of a p ip "ip_val ip - ?base"] by simp
  have lt: "ip_val ip + 1 \<le> 2 ^ 32" using Suc.prems network_bound[OF assms(1,3)] by simp
  have l': "length ?ip' = 4" using Suc.prems by (simp add: length_incrementIP)
  have v': "ip_val ?ip' = (ip_val ip + 1) mod 2 ^ 32"
    using Suc.prems by (simp add: ip_val_incrementIP)
  show ?case
  proof (cases k)
    case 0
    then have "ip_val ?ip' = (?base + 2 ^ (32 - p)) mod 2 ^ 32" using v' Suc.prems by simp
    then have "\<not> Contains ?n ?ip'" using not_Contains_past_end[OF assms l'] by simp
    then have "enqueue ?n ip sent = Some (sent @ [ip])"
      using c by (simp add: enqueue.simps[of ?n ip] enqueue.simps[of ?n ?ip'])
    moreover have "map ip_val [ip] = [ip_val ip ..< ip_val ip + Suc k]" using 0 by simp
    moreover have "list_all (\<lambda>r. length r = 4) [ip]" using Suc.prems(1) by simp
    ultimately show ?thesis by blast
  next
    case (Suc k')
    then have "ip_val ip + 1 < 2 ^ 32" using Suc.prems network_bound[OF assms(1,3)] by simp
    then have v'': "ip_val ?ip' = ip_val ip + 1" using v' by simp
    have "\<exists>rest. enqueue ?n ?ip' (sent @ [ip]) = Some ((sent @ [ip]) @ rest)
              \<and> map ip_val rest = [ip_val ?ip' ..< ip_val ?ip' + k]
              \<and> list_all (\<lambda>r. length r = 4) rest"
      using Suc.prems Suc v'' l' by (intro Suc.IH) simp_all
    then obtain rest where r: "enqueue ?n ?ip' (sent @ [ip]) = Some ((sent @ [ip]) @ rest)"
        "map ip_val rest = [ip_val ?ip' ..< ip_val ?ip' + k]" "list_all (\<lambda>r. length r = 4) rest"
      by blast
    have "enqueue ?n ip sent = Some (sent @ (ip # rest))"
      using c r(1) by (simp add: enqueue.simps[of ?n ip])
    moreover have "map ip_val (ip # rest) = [ip_val ip ..< ip_val ip + Suc k]"
      using r(2) v'' by (simp add: upt_rec[of "ip_val ip"])
    moreover have "list_all (\<lambda>r. length r = 4) (ip # rest)" using r(3) Suc.prems by simp
    ultimately show ?thesis by blast
  qed
qed

lemma enqueue_all_prefix_ge_1:
  assumes "length a = 4" "1 \<le> p" "p \<le> 32"
  shows "\<exists>addrs. enqueue_all (ipv4_net a p) = Some addrs
           \<and> map ip_val addrs = [ip_val (IP (ipv4_net a p)) ..< ip_val (IP (ipv4_net a p)) + 2 ^ (32 - p)]
           \<and> list_all (\<lambda>r. length r = 4) addrs"
proof -
  let ?n = "ipv4_net a p"
  have "\<exists>rest. enqueue ?n (IP ?n) [] = Some ([] @ rest)
              \<and> map ip_val rest = [ip_val (IP ?n) ..< ip_val (IP ?n) + 2 ^ (32 - p)]
              \<and> list_all (\<lambda>r. length r = 4) rest"
    using assms by (intro enqueue_from) (simp_all add: ipv4_net_simps(3))
  then show ?thesis using assms by (simp add: enqueue_all_def start_v4)
qed

lemma Contains_prefix_0:
  assumes "length a = 4" "length ip = 4"
  shows "Contains (ipv4_net a 0) ip"
proof -
  have "ip_val ip < 2 ^ 32" "ip_val a < 2 ^ 32" using ip_val_lt[of ip] ip_val_lt[of a] assms by simp_all
  then have "ip_val ip div 2 ^ 32 = ip_val a div 2 ^ 32" by simp
  then show ?thesis using assms Contains_v4[of a 0 ip] by simp
qed

lemma enqueue_prefix_0_None:
  assumes "length a = 4"
  shows "length ip = 4 \<Longrightarrow> enqueue (ipv4_net a 0) ip sent = None"
proof -
  have "n = ipv4_net a 0 \<longrightarrow> length ip \<noteq> 4" if "enqueue n ip sent = Some y" for n ip sent y
  proof (rule enqueue.raw_induct[where P = "\<lambda>n ip sent y. n = ipv4_net a 0 \<longrightarrow> length ip \<noteq> 4", OF _ that])
    fix f n ip sent y
    assume IH: "\<And>n ip sent y. f n ip sent = Some y \<Longrightarrow> n = ipv4_net a 0 \<longrightarrow> length ip \<noteq> 4"
      and eq: "(if Contains n ip then f n (incrementIP ip) (sent @ [ip]) else Some sent) = Some y"
    show "n = ipv4_net a 0 \<longrightarrow> length ip \<noteq> 4"
    proof (intro impI notI)
      assume n: "n = ipv4_net a 0" and l: "length ip = 4"
      then have "Contains n ip" using assms Contains_prefix_0 by simp
      then have "f n (incrementIP ip) (sent @ [ip]) = Some y" using eq by simp
      then have "length (incrementIP ip) \<noteq> 4" using IH n by blast
      then show False using l by (simp add: length_incrementIP)
    qed
  qed
  then show "length ip = 4 \<Longrightarrow> enqueue (ipv4_net a 0) ip sent = None"
    by (cases "enqueue (ipv4_net a 0) ip sent") auto
qed

lemma length_funpow_incrementIP: "length ((incrementIP ^^ i) ip) = length ip"
  by (induction i) (simp_all add: length_incrementIP)

lemma ip_val_funpow_incrementIP:
  "ip_val ((incrementIP ^^ i) ip) = (ip_val ip + i) mod 256 ^ length ip"
proof (induction i)
  case 0 then show ?case using ip_val_lt[of ip] by simp
next
  case (Suc i)
  have "ip_val ((incrementIP ^^ Suc i) ip) = (ip_val ((incrementIP ^^ i) ip) + 1) mod 256 ^ length ip"
    by (simp add: ip_val_incrementIP length_funpow_incrementIP)
  also have "\<dots> = ((ip_val ip + i) mod 256 ^ length ip + 1) mod 256 ^ length ip"
    by (simp only: Suc)
  also have "\<dots> = (ip_val ip + Suc i) mod 256 ^ length ip"
    by (simp add: mod_Suc_eq)
  finally show ?case .
qed

lemma enqueue_steps_prefix_0:
  assumes "length a = 4"
  shows "length ip = 4 \<Longrightarrow> enqueue_steps k (ipv4_net a 0) ip = map (\<lambda>i. (incrementIP ^^ i) ip) [0..<k]"
proof (induction k arbitrary: ip)
  case 0 then show ?case by simp
next
  case (Suc k)
  have c: "Contains (ipv4_net a 0) ip" using assms Suc.prems by (rule Contains_prefix_0)
  have "enqueue_steps k (ipv4_net a 0) (incrementIP ip) = map (\<lambda>i. (incrementIP ^^ i) (incrementIP ip)) [0..<k]"
    using Suc.prems by (intro Suc.IH) (simp add: length_incrementIP)
  also have "\<dots> = map (\<lambda>i. (incrementIP ^^ i) ip) (map Suc [0..<k])"
    by (simp add: funpow_swap1)
  finally show ?case using c by (simp only: enqueue_steps.simps if_True map_Suc_upt upt_conv_Cons[of 0 "Suc k"]) simp
qed

lemma funpow_incrementIP_wrap:
  assumes "length ip = 4"
  shows "(incrementIP ^^ (2 ^ 32)) ip = ip"
proof -
  have "ip_val ((incrementIP ^^ (2 ^ 32)) ip) = (ip_val ip + 2 ^ 32) mod 2 ^ 32"
    using assms by (simp only: ip_val_funpow_incrementIP) simp
  also have "\<dots> = ip_val ip" using ip_val_lt[of ip] assms by simp
  finally show ?thesis using assms by (intro ip_val_inj) (simp_all add: length_funpow_incrementIP)
qed

lemma enqueue_steps_finished:
  "length (enqueue_steps k n ip) < k \<Longrightarrow> enqueue n ip sent = Some (sent @ enqueue_steps k n ip)"
proof (induction k arbitrary: ip sent)
  case 0 then show ?case by simp
next
  case (Suc k)
  show ?case
  proof (cases "Contains n ip")
    case True
    then have "length (enqueue_steps k n (incrementIP ip)) < k" using Suc.prems by simp
    then have "enqueue n (incrementIP ip) (sent @ [ip]) = Some ((sent @ [ip]) @ enqueue_steps k n (incrementIP ip))"
      by (rule Suc.IH)
    then show ?thesis using True by (simp add: enqueue.simps[of n ip])
  next
    case False
    then show ?thesis by (simp add: enqueue.simps[of n ip])
  qed
qed

lemma enqueue_Some_steps:
  assumes "enqueue n ip sent = Some y"
  shows "\<exists>k. y = sent @ enqueue_steps k n ip \<and> length (enqueue_steps k n ip) < k"
proof (rule enqueue.raw_induct[where P = "\<lambda>n ip sent y. \<exists>k. y = sent @ enqueue_steps k n ip \<and> length (enqueue_steps k n ip) < k", OF _ assms])
  fix f n ip sent y
  assume IH: "\<And>n ip sent y. f n ip sent = Some y \<Longrightarrow>
                \<exists>k. y = sent @ enqueue_steps k n ip \<and> length (enqueue_steps k n ip) < k"
    and eq: "(if Contains n ip then f n (incrementIP ip) (sent @ [ip]) else Some sent) = Some y"
  show "\<exists>k. y = sent @ enqueue_steps k n ip \<and> length (enqueue_steps k n ip) < k"
  proof (cases "Contains n ip")
    case True
    then have "f n (incrementIP ip) (sent @ [ip]) = Some y" using eq by simp
    then obtain k where "y = (sent @ [ip]) @ enqueue_steps k n (incrementIP ip)"
       "length (enqueue_steps k n (incrementIP ip)) < k" using IH by blast
    then have "y = sent @ enqueue_steps (Suc k) n ip \<and> length (enqueue_steps (Suc k) n ip) < Suc k"
      using True by simp
    then show ?thesis by blast
  next
    case False
    then have "y = sent @ enqueue_steps (Suc 0) n ip \<and> length (enqueue_steps (Suc 0) n ip) < Suc 0"
      using eq by simp
    then show ?thesis by blast
  qed
qed

lemma IP_net_0: "IP (ipv4_net [0,0,0,0] 0) = [0,0,0,0]"
  by (simp add: ipv4_net_def CIDRMask_def IPv4len_def IPv6len_def Mask_ip_def Let_def numeral_2_eq_2 numeral_3_eq_3 eval_nat_numeral)

lemma enqueued_after_prefix_0:
  assumes "length a = 4"
  shows "enqueued_after k (ipv4_net a 0) = map (\<lambda>i. (incrementIP ^^ i) (IP (ipv4_net a 0))) [0..<k]"
  using assms by (simp add: enqueued_after_def start_v4 enqueue_steps_prefix_0 ipv4_net_simps(3))

text \<open>
  For a prefix length from 1 to 32 the loop ends, having enqueued the \<open>2 ^ (32 - p)\<close>
  addresses of the range in increasing order, from the network address on.
\<close>

lemma expansion_prefix_ge_1:
  assumes "length a = 4" "1 \<le> p" "p \<le> 32"
  shows "\<exists>addrs. enqueue_all (ipv4_net a p) = Some addrs
           \<and> length addrs = 2 ^ (32 - p)
           \<and> sorted_wrt (<) (map ip_val addrs)
           \<and> distinct addrs
           \<and> hd addrs = Mask_ip a (CIDRMask (int p) 32)
           \<and> ip_val (last addrs) = ip_val (hd addrs) + 2 ^ (32 - p) - 1
           \<and> map ip_val addrs = [ip_val (hd addrs) ..< ip_val (hd addrs) + 2 ^ (32 - p)]"
proof -
  let ?n = "ipv4_net a p" and ?c = "2 ^ (32 - p) :: nat"
  let ?b = "ip_val (IP ?n)"
  obtain addrs where e: "enqueue_all ?n = Some addrs"
    and m: "map ip_val addrs = [?b ..< ?b + ?c]"
    and l: "list_all (\<lambda>r. length r = 4) addrs"
    using enqueue_all_prefix_ge_1[OF assms] by blast
  have len: "length addrs = ?c" using arg_cong[OF m, of length] by simp
  then have ne: "addrs \<noteq> []" by auto
  have "sorted_wrt (<) (map ip_val addrs)" by (simp only: m sorted_wrt_upt)
  moreover have "distinct (map ip_val addrs)" by (simp only: m distinct_upt)
  then have "distinct addrs" by (simp add: distinct_map)
  moreover have hv: "ip_val (hd addrs) = ?b"
    using arg_cong[OF m, of hd] ne by (simp add: hd_map)
  moreover have "length (hd addrs) = 4" using l ne by (cases addrs) simp_all
  then have "hd addrs = IP ?n" using hv assms by (intro ip_val_inj) (simp_all add: ipv4_net_simps(3))
  then have h: "hd addrs = Mask_ip a (CIDRMask (int p) 32)" by (simp add: ipv4_net_def Let_def)
  moreover have "ip_val (last addrs) = ?b + ?c - 1"
    using arg_cong[OF m, of last] ne by (simp add: last_map)
  ultimately show ?thesis using e len m by (intro exI[of _ addrs]) simp
qed

text \<open>
  Claim C1. For the range 0.0.0.0/0 the loop never ends: every address is in the
  network, and after 255.255.255.255 the address wraps to 0.0.0.0. However many times
  \<open>k\<close> the loop has gone round, it has enqueued \<open>k\<close> addresses.
\<close>

theorem prefix_0_never_ends:
  "enqueue_all (ipv4_net [0,0,0,0] 0) = None
   \<and> (\<forall>k. length (enqueued_after k (ipv4_net [0,0,0,0] 0)) = k)"
proof -
  have l: "length [0,0,0,0 :: byte] = 4" by simp
  have "enqueue_all (ipv4_net [0,0,0,0] 0) = None"
    unfolding enqueue_all_def using l by (simp add: start_v4 enqueue_prefix_0_None ipv4_net_simps(3))
  moreover have "length (enqueued_after k (ipv4_net [0,0,0,0] 0)) = k" for k
    by (simp only: enqueued_after_prefix_0[OF l] length_map length_upt diff_zero)
  ultimately show ?thesis by blast
qed

text \<open>
  Claim C2. For the range 0.0.0.0/0 the loop enqueues more than \<open>2 ^ 32\<close> addresses,
  and the address enqueued after the first \<open>2 ^ 32\<close> is the network address again.
\<close>

theorem prefix_0_repeats:
  "length (enqueued_after (2 ^ 32 + 1) (ipv4_net [0,0,0,0] 0)) = 2 ^ 32 + 1
   \<and> enqueued_after (2 ^ 32 + 1) (ipv4_net [0,0,0,0] 0) ! 0 = [0,0,0,0]
   \<and> enqueued_after (2 ^ 32 + 1) (ipv4_net [0,0,0,0] 0) ! (2 ^ 32) = [0,0,0,0]"
proof -
  let ?K = "2 ^ 32 + 1 :: nat"
  have l: "length [0,0,0,0 :: byte] = 4" by simp
  have n: "i < k \<Longrightarrow> enqueued_after k (ipv4_net [0,0,0,0] 0) ! i = (incrementIP ^^ i) [0,0,0,0]" for i k
    by (simp only: enqueued_after_prefix_0[OF l] IP_net_0 nth_map length_upt nth_upt) simp
  have "length (enqueued_after ?K (ipv4_net [0,0,0,0] 0)) = ?K"
    by (simp only: enqueued_after_prefix_0[OF l] length_map length_upt diff_zero)
  moreover have "enqueued_after ?K (ipv4_net [0,0,0,0] 0) ! 0 = [0,0,0,0]"
    using n[of 0 ?K] by simp
  moreover have "enqueued_after ?K (ipv4_net [0,0,0,0] 0) ! (2 ^ 32) = [0,0,0,0]"
    using n[of "2 ^ 32" ?K] funpow_incrementIP_wrap[OF l] by simp
  ultimately show ?thesis by blast
qed

section \<open>Properties of the aggregator\<close>

lemma aggregate_snoc: "aggregate (rs @ [r]) = print_unique (aggregate rs) r"
  by (simp add: aggregate_def)

lemma fst_aggregate: "fst (aggregate rs) = set rs"
  by (induction rs rule: rev_induct) (auto simp: aggregate_snoc print_unique_def aggregate_def)

lemma printed_Nil: "printed [] = []"
  by (simp add: printed_def aggregate_def)

lemma printed_snoc: "printed (rs @ [r]) = printed rs @ (if r \<in> set rs then [] else [r])"
  by (simp add: printed_def aggregate_snoc print_unique_def fst_aggregate)

lemma set_printed: "set (printed rs) = set rs"
  by (induction rs rule: rev_induct) (auto simp: printed_Nil printed_snoc)

lemma distinct_printed: "distinct (printed rs)"
  by (induction rs rule: rev_induct) (auto simp: printed_Nil printed_snoc set_printed)

lemma printed_remdups: "printed rs = rev (remdups (rev rs))"
  by (induction rs rule: rev_induct) (auto simp: printed_Nil printed_snoc)

text \<open>
  Claim C4. Whatever arrives on \<^verbatim>\<open>ch\<close>, in whatever order the jobs and their workers
  have sent it: nothing is printed before anything arrives; when \<open>r\<close> arrives after
  \<open>rs\<close>, the loop prints \<open>r\<close> if it has not arrived before and prints nothing
  otherwise; so the lines printed are free of duplicates, they are the hostnames that
  have arrived, and they stand in the order of their first arrivals.
\<close>

theorem aggregator_first_arrivals:
  "printed [] = []
   \<and> printed (rs @ [r]) = printed rs @ (if r \<in> set rs then [] else [r])
   \<and> distinct (printed rs)
   \<and> set (printed rs) = set rs
   \<and> printed rs = rev (remdups (rev rs))"
  by (intro conjI printed_Nil printed_snoc distinct_printed set_printed printed_remdups)

section \<open>Properties of the worker loop\<close>

lemma forward_hostnames_filter:
  "forward_hostnames filter_re match_re hostnames =
     filter (\<lambda>h. (filter_re = None \<or> \<not> the filter_re h) \<and> (match_re = None \<or> the match_re h)) hostnames"
  by (induction hostnames) auto

text \<open>
  Claim C5. Of the hostnames a lookup returns, the worker sends on \<^verbatim>\<open>ch\<close> those, in
  order, for which the exclude pattern is absent or does not match, and the include
  pattern is absent or matches.
\<close>

theorem filter_law:
  "forward_hostnames filter_re match_re hostnames =
     filter (\<lambda>h. (filter_re = None \<or> \<not> the filter_re h) \<and> (match_re = None \<or> the match_re h)) hostnames"
  by (rule forward_hostnames_filter)

theorem filter_law_witness:
  "forward_hostnames (Some (\<lambda>h. take 8 h = ''internal'')) None
     [''internal.example.com'', ''public.example.com''] = [''public.example.com'']"
  using filter_law [of "Some (\<lambda>h. take 8 h = ''internal'')" None "[''internal.example.com'', ''public.example.com'']"]
  by simp

lemma fetch_failed: "lookup_failed (client ip) \<Longrightarrow> fetchHostnamesFromShodan client ip = []"
  by (auto simp: lookup_failed_def fetchHostnamesFromShodan_def split: http_result.splits document.splits)

lemma fetch_empty_document:
  "fetchHostnamesFromShodan (client(ip := Response StatusOK (Document []))) ip' =
     (if ip' = ip then [] else fetchHostnamesFromShodan client ip')"
  by (simp add: fetchHostnamesFromShodan_def)

lemma fst_worker: "fst (worker filter_re match_re client ips) = ips"
  by (induction ips) (auto simp: Let_def split: prod.splits)

lemma worker_failed_as_empty:
  "lookup_failed (client bad) \<Longrightarrow>
   worker filter_re match_re client ips =
   worker filter_re match_re (client(bad := Response StatusOK (Document []))) ips"
proof (induction ips)
  case Nil then show ?case by simp
next
  case (Cons ip ips)
  have f: "fetchHostnamesFromShodan (client(bad := Response StatusOK (Document []))) ip
        = fetchHostnamesFromShodan client ip"
    using Cons.prems by (simp add: fetch_empty_document fetch_failed)
  show ?case by (simp only: worker.simps f Cons.IH[OF Cons.prems, symmetric])
qed

lemma worker_append:
  "worker f m client (xs @ ys) =
     (fst (worker f m client xs) @ fst (worker f m client ys),
      snd (worker f m client xs) @ snd (worker f m client ys))"
  by (induction xs) (auto simp: Let_def split: prod.splits)

text \<open>
  Claim C6. When the lookup of the address \<open>bad\<close> fails, it yields no hostname; the
  worker does what it would do had the service answered with an empty document; it
  makes one lookup for each address it receives, in order, those after \<open>bad\<close>
  included; and what it sends is what the addresses before and after \<open>bad\<close> yield.
\<close>

theorem failed_lookup_is_empty:
  assumes "lookup_failed (client bad)"
  shows "fetchHostnamesFromShodan client bad = []
     \<and> worker filter_re match_re client ips =
        worker filter_re match_re (client(bad := Response StatusOK (Document []))) ips
     \<and> fst (worker filter_re match_re client (before @ bad # after)) = before @ bad # after
     \<and> snd (worker filter_re match_re client (before @ bad # after)) =
        snd (worker filter_re match_re client before) @ snd (worker filter_re match_re client after)"
proof -
  have "snd (worker filter_re match_re client (before @ bad # after)) =
        snd (worker filter_re match_re client before) @ snd (worker filter_re match_re client after)"
    using assms by (simp add: worker_append fetch_failed Let_def split: prod.splits)
  then show ?thesis using assms worker_failed_as_empty[of client bad filter_re match_re ips] by (simp add: fetch_failed fst_worker)
qed

lemma TrimSpace_example: "TrimSpace '' a'' = ''a''"
  by code_simp

text \<open>
  A no-break space (U+00A0, in UTF-8 the bytes C2 A0) is white space: a \<^verbatim>\<open><b>\<close> element
  that follows nothing else yields no hostname.
\<close>

lemma b_hostnames_no_break_space:
  "b_hostnames [\<lparr>Text = ''.example.com'', PrevSibling = Some [CHR 0xC2, CHR 0xA0]\<rparr>] = []"
  by code_simp

theorem failed_lookup_is_empty_witness:
  "lookup_failed ((\<lambda>ip. if ip = [10,0,0,1] then GetFailed
                          else Response 200 (Document [\<lparr>Text = ''.example.com'', PrevSibling = Some '' a''\<rparr>])) [10,0,0,1])
   \<and> snd (worker None None
        (\<lambda>ip. if ip = [10,0,0,1] then GetFailed
               else Response 200 (Document [\<lparr>Text = ''.example.com'', PrevSibling = Some '' a''\<rparr>]))
        ([[10,0,0,0]] @ [10,0,0,1] # [[10,0,0,2]])) = [''a.example.com'', ''a.example.com'']"
proof -
  let ?c = "\<lambda>ip::ip. if ip = [10,0,0,1] then GetFailed
               else Response 200 (Document [\<lparr>Text = ''.example.com'', PrevSibling = Some '' a''\<rparr>])"
  have h: "lookup_failed (?c [10,0,0,1])" by (simp add: lookup_failed_def)
  show ?thesis
    using h failed_lookup_is_empty [of ?c "[10,0,0,1]" None None "[]" "[[10,0,0,0]]" "[[10,0,0,2]]"]
    by (simp add: fetchHostnamesFromShodan_def StatusOK_def TrimSpace_example)
qed

section \<open>Properties of the flags and filters\<close>

lemma compile_flag_empty: "compile_flag MustCompile [] = Inr None"
  by (simp add: compile_flag_def)

text \<open>
  Claim C10. An empty pattern is not compiled: the filter stays \<^verbatim>\<open>nil\<close>, whatever
  \<^verbatim>\<open>regexp.MustCompile\<close> would make of the empty string. With an empty exclude flag
  only the include pattern decides what a worker sends, and with an empty include
  flag only the exclude pattern.
\<close>

theorem empty_pattern_is_absent:
  "compile_flag MustCompile [] = Inr None
   \<and> (compile_filters MustCompile fl = Inr (filter_re, match_re) \<longrightarrow>
        (filterRegex fl = [] \<longrightarrow>
           filter_re = None
           \<and> forward_hostnames filter_re match_re hostnames =
              filter (\<lambda>h. match_re = None \<or> the match_re h) hostnames)
      \<and> (matchRegex fl = [] \<longrightarrow>
           match_re = None
           \<and> forward_hostnames filter_re match_re hostnames =
              filter (\<lambda>h. filter_re = None \<or> \<not> the filter_re h) hostnames))"
  by (auto simp: compile_flag_empty compile_filters_def forward_hostnames_filter split: sum.splits)

theorem empty_pattern_is_absent_witness:
  "compile_filters (\<lambda>pat. Some (\<lambda>h. True)) default_flags = Inr (None, None)
   \<and> filterRegex default_flags = [] \<and> matchRegex default_flags = []
   \<and> forward_hostnames None None [''a.example.com''] = [''a.example.com'']"
  using empty_pattern_is_absent [of "\<lambda>pat. Some (\<lambda>h. True)" default_flags None None "[''a.example.com'']"]
  by (simp add: compile_filters_def compile_flag_def default_flags_def)

text \<open>
  Claim C3. The worker count of a command line without \<^verbatim>\<open>-c\<close> is 5, not 100.
\<close>

theorem default_concurrency_is_5:
  "concurrency (flag_Parse [Flag_t ''10.0.0.0/24'']) = 5
   \<and> concurrency (flag_Parse [Flag_t ''10.0.0.0/24'']) \<noteq> 100"
  by (simp add: flag_Parse_def default_flags_def)

section \<open>The worker count of a job\<close>

lemma job_step_workers_launched:
  assumes "job_step cfg e (J, c) = Some (J', c', err')" "workers_launched cfg J"
  shows "workers_launched cfg J'"
proof (cases e)
  case Parse
  then show ?thesis using assms
    by (auto simp: workers_launched_def split: producer_state.splits sum.splits)
next
  case (Hand i)
  then show ?thesis using assms
    by (auto simp: workers_launched_def split: producer_state.splits if_splits)
next
  case CloseIpChan
  then show ?thesis using assms
    by (auto simp: workers_launched_def split: producer_state.splits if_splits)
next
  case (Fetch i)
  then show ?thesis using assms
    by (auto simp: workers_launched_def split: producer_state.splits worker_state.splits if_splits)
next
  case (Examine i)
  then show ?thesis using assms
    by (auto simp: workers_launched_def split: producer_state.splits worker_state.splits list.splits if_splits)
next
  case (Next i)
  then show ?thesis using assms
    by (auto simp: workers_launched_def split: producer_state.splits if_splits)
next
  case (Finish i)
  then show ?thesis using assms
    by (auto simp: workers_launched_def split: producer_state.splits if_splits)
next
  case Return
  then show ?thesis using assms
    by (auto simp: workers_launched_def split: producer_state.splits if_splits)
qed

lemma list_all_update: "list_all P xs \<Longrightarrow> P x \<Longrightarrow> list_all P (xs[i := x])"
  by (induction xs arbitrary: i) (auto split: nat.splits)

lemma sched_step_Job:
  assumes "sched_step cfg s (Job j e) = Some s'"
  obtains J' c' err' where "j < length (jobs s)"
    and "job_step cfg e (jobs s ! j, ch s) = Some (J', c', err')"
    and "s' = s\<lparr>jobs := (jobs s)[j := J'], ch := c', stderr := stderr s @ err'\<rparr>"
proof -
  have l: "j < length (jobs s)" using assms by (simp split: if_splits)
  then obtain r where r: "job_step cfg e (jobs s ! j, ch s) = Some r"
    using assms by (cases "job_step cfg e (jobs s ! j, ch s)") simp_all
  obtain J' c' err' where "r = (J', c', err')" by (cases r)
  then show ?thesis using that l r assms by simp
qed

lemma sched_step_Print:
  assumes "sched_step cfg s Print = Some s'"
  obtains result rest where "ch s = result # rest"
    and "s' = s\<lparr>ch := rest,
                 uniqueResults := fst (print_unique (uniqueResults s, stdout s) result),
                 stdout := snd (print_unique (uniqueResults s, stdout s) result)\<rparr>"
proof (cases "ch s")
  case Nil then show ?thesis using assms by simp
next
  case (Cons result rest)
  then show ?thesis using that assms by (simp add: case_prod_beta)
qed

lemma sched_step_workers_launched:
  assumes "sched_step cfg s e = Some s'" "list_all (workers_launched cfg) (jobs s)"
  shows "list_all (workers_launched cfg) (jobs s')"
proof (cases e)
  case (Job j je)
  then obtain J' c' err' where l: "j < length (jobs s)"
    and st: "job_step cfg je (jobs s ! j, ch s) = Some (J', c', err')"
    and s': "s' = s\<lparr>jobs := (jobs s)[j := J'], ch := c', stderr := stderr s @ err'\<rparr>"
    using assms(1) by (auto split: if_splits option.splits)
  have "workers_launched cfg (jobs s ! j)" using assms(2) l by (simp add: list_all_length)
  then have "workers_launched cfg J'" using st job_step_workers_launched by blast
  then show ?thesis using assms(2) s' by (simp add: list_all_update)
next
  case CloseCh
  then show ?thesis using assms by (auto split: if_splits)
next
  case Print
  then show ?thesis using assms by (auto split: list.splits prod.splits)
qed

lemma run_workers_launched:
  "run cfg s es = Some s' \<Longrightarrow> list_all (workers_launched cfg) (jobs s) \<Longrightarrow>
   list_all (workers_launched cfg) (jobs s')"
proof (induction es arbitrary: s)
  case Nil then show ?case by simp
next
  case (Cons e es)
  then obtain s1 where "sched_step cfg s e = Some s1" "run cfg s1 es = Some s'"
    by (auto split: option.splits)
  then show ?case using Cons sched_step_workers_launched by blast
qed

lemma init_workers_launched: "list_all (workers_launched cfg) (jobs (init_system cidrList))"
  by (simp add: init_system_def list_all_iff workers_launched_def)

text \<open>
  Claim C9. In every state the program can reach, under any schedule, a job has at
  most \<^verbatim>\<open>*concurrency\<close> lookups in flight; and a job that is enqueuing addresses or
  waiting for its workers has exactly \<^verbatim>\<open>*concurrency\<close> workers, each of them at one
  place of its loop, so in one lookup at most.
\<close>

theorem in_flight_bounded:
  assumes "run cfg (init_system cidrList) schedule = Some s" "J \<in> set (jobs s)"
  shows "in_flight J \<le> nat (cfg_concurrency cfg)
     \<and> ((\<exists>n ip. producer J = Enqueuing n ip) \<or> producer J = Waiting
          \<longrightarrow> length (workers J) = nat (cfg_concurrency cfg))"
proof -
  have "list_all (workers_launched cfg) (jobs s)"
    using assms(1) init_workers_launched by (rule run_workers_launched)
  then have w: "workers_launched cfg J" using assms(2) by (simp add: list_all_iff)
  have "in_flight J \<le> length (workers J)" by (simp add: in_flight_def)
  moreover have "length (workers J) \<le> nat (cfg_concurrency cfg)"
    using w by (auto simp: workers_launched_def split: producer_state.splits)
  ultimately show ?thesis using w by (auto simp: workers_launched_def)
qed

lemma scenario_in_flight:
  "map_option (\<lambda>s. map in_flight (jobs s))
     (run scenario_config (init_system [''10.0.0.0/31'']) [Job 0 Parse, Job 0 (Hand 0)])
   = Some [1]"
  by code_simp

theorem in_flight_bounded_witness:
  "map_option (\<lambda>s. map in_flight (jobs s))
     (run scenario_config (init_system [''10.0.0.0/31'']) [Job 0 Parse, Job 0 (Hand 0)])
   = Some [1]
   \<and> (1 :: nat) \<le> nat (cfg_concurrency scenario_config)"
proof -
  obtain s where s: "run scenario_config (init_system [''10.0.0.0/31'']) [Job 0 Parse, Job 0 (Hand 0)] = Some s"
    and j: "map in_flight (jobs s) = [1]"
    using scenario_in_flight
    by (cases "run scenario_config (init_system [''10.0.0.0/31'']) [Job 0 Parse, Job 0 (Hand 0)]") auto
  then obtain J where J: "J \<in> set (jobs s)" "in_flight J = 1" by (cases "jobs s") auto
  have "in_flight J \<le> nat (cfg_concurrency scenario_config)"
    using in_flight_bounded [OF s J(1)] by simp
  then show ?thesis using scenario_in_flight J(2) by simp
qed

section \<open>One worker is a sequential loop\<close>

lemma enqueue_steps_Suc:
  "enqueue_steps (Suc k) n ip =
     enqueue_steps k n ip @
       (if length (enqueue_steps k n ip) = k \<and> Contains n ((incrementIP ^^ k) ip)
        then [(incrementIP ^^ k) ip] else [])"
proof (induction k arbitrary: ip)
  case 0 then show ?case by simp
next
  case (Suc k)
  show ?case
  proof (cases "Contains n ip")
    case True
    have "enqueue_steps (Suc (Suc k)) n ip = ip # enqueue_steps (Suc k) n (incrementIP ip)"
      using True by simp
    also have "\<dots> = ip # (enqueue_steps k n (incrementIP ip) @
       (if length (enqueue_steps k n (incrementIP ip)) = k \<and> Contains n ((incrementIP ^^ k) (incrementIP ip))
        then [(incrementIP ^^ k) (incrementIP ip)] else []))"
      by (simp only: Suc.IH)
    finally show ?thesis using True by (simp add: funpow_swap1)
  next
    case False then show ?thesis by simp
  qed
qed

lemma length_enqueue_steps_le: "length (enqueue_steps k n ip) \<le> k"
  by (induction k arbitrary: ip) auto

lemma length_enqueued_after_le: "length (enqueued_after k n) \<le> k"
  by (simp add: enqueued_after_def length_enqueue_steps_le)

lemma enqueued_after_Suc:
  "enqueued_after (Suc k) n =
     enqueued_after k n @
       (if length (enqueued_after k n) = k \<and> Contains n (addr_at n k) then [addr_at n k] else [])"
  unfolding enqueued_after_def addr_at_def by (rule enqueue_steps_Suc)

lemma sent_for_snoc:
  "sent_for cfg (addrs @ [ip]) =
     sent_for cfg addrs @
     forward_hostnames (cfg_filter cfg) (cfg_match cfg) (fetchHostnamesFromShodan (cfg_client cfg) ip)"
  by (simp add: sent_for_def worker_append Let_def split: prod.splits)

lemma enqueued_after_0: "enqueued_after 0 n = []"
  by (simp add: enqueued_after_def)

lemma addr_at_0: "addr_at n 0 = Mask_ip (IP n) (Mask n)"
  by (simp add: addr_at_def)

lemma sent_for_Nil: "sent_for cfg [] = []"
  by (simp add: sent_for_def)

lemma addr_at_v4:
  assumes "length a = 4" "p \<le> 32" "k < 2 ^ (32 - p)"
  shows "length (addr_at (ipv4_net a p) k) = 4"
    and "ip_val (addr_at (ipv4_net a p) k) = ip_val (IP (ipv4_net a p)) + k"
    and "Contains (ipv4_net a p) (addr_at (ipv4_net a p) k)"
proof -
  let ?n = "ipv4_net a p"
  have st: "addr_at ?n k = (incrementIP ^^ k) (IP ?n)"
    using assms by (simp add: addr_at_def start_v4)
  show l: "length (addr_at ?n k) = 4"
    using assms by (simp add: st length_funpow_incrementIP ipv4_net_simps(3))
  have "ip_val (IP ?n) + k < 2 ^ 32"
    using network_bound[OF assms(1,2)] assms(3) by simp
  then show v: "ip_val (addr_at ?n k) = ip_val (IP ?n) + k"
    using assms by (simp add: st ip_val_funpow_incrementIP ipv4_net_simps(3))
  show "Contains ?n (addr_at ?n k)"
    using assms(1,2) l v assms(3) by (rule Contains_offset)
qed

lemma enqueued_after_ascending:
  assumes "length a = 4" "p \<le> 32"
  shows "k \<le> 2 ^ (32 - p) \<Longrightarrow>
         map ip_val (enqueued_after k (ipv4_net a p))
           = [ip_val (IP (ipv4_net a p)) ..< ip_val (IP (ipv4_net a p)) + k]"
proof (induction k)
  case 0 then show ?case by (simp add: enqueued_after_0)
next
  case (Suc k)
  let ?n = "ipv4_net a p"
  have k: "k < 2 ^ (32 - p)" using Suc.prems by simp
  have m: "map ip_val (enqueued_after k ?n) = [ip_val (IP ?n) ..< ip_val (IP ?n) + k]"
    using Suc by simp
  have "length (enqueued_after k ?n) = k" using arg_cong[OF m, of length] by simp
  then have "enqueued_after (Suc k) ?n = enqueued_after k ?n @ [addr_at ?n k]"
    using addr_at_v4(3)[OF assms k] by (simp add: enqueued_after_Suc)
  then show ?case using m addr_at_v4(2)[OF assms k] by simp
qed

lemma singleton_update_nth: "length ws = Suc 0 \<Longrightarrow> i < Suc 0 \<Longrightarrow> ws[i := w] = [w] \<and> ws ! i = hd ws"
  by (cases ws) auto

lemma job1_worker:
  assumes "job1_inv cfg cidr n k arrived J" "i < length (workers J)" "workers J ! i = w"
    and "w \<noteq> Finished"
  shows "workers J = [w]" and "worker1_inv cfg n k arrived w"
    and "producer J = Enqueuing n (addr_at n k) \<or> producer J = Waiting"
proof -
  have "workers J = [w] \<and> worker1_inv cfg n k arrived w
        \<and> (producer J = Enqueuing n (addr_at n k) \<or> producer J = Waiting)"
  proof (cases "producer J")
    case (Parsing c)
    then show ?thesis using assms by (simp add: job1_inv_def)
  next
    case (Enqueuing n' ip)
    then have "length (workers J) = 1" "worker1_inv cfg n k arrived (hd (workers J))"
        "n' = n" "ip = addr_at n k"
      using assms(1) by (simp_all add: job1_inv_def)
    then show ?thesis using Enqueuing assms(2,3) by (cases "workers J") simp_all
  next
    case Waiting
    then have "length (workers J) = 1" "worker1_inv cfg n k arrived (hd (workers J))"
      using assms(1) by (simp_all add: job1_inv_def)
    then show ?thesis using Waiting assms(2,3) by (cases "workers J") simp_all
  next
    case Returned
    then have "workers J = [Finished]" using assms(1) by (simp add: job1_inv_def)
    then show ?thesis using assms(2,3,4) by simp
  qed
  then show "workers J = [w]" and "worker1_inv cfg n k arrived w"
    and "producer J = Enqueuing n (addr_at n k) \<or> producer J = Waiting" by simp_all
qed

lemma job1_worker_update:
  assumes "job1_inv cfg cidr n k arrived J" "workers J = [w]" "w \<noteq> Finished"
    and "w' \<noteq> Finished" "worker1_inv cfg n k arrived' w'"
  shows "job1_inv cfg cidr n k arrived' (J\<lparr>workers := [w']\<rparr>)"
proof (cases "producer J")
  case (Parsing c)
  then show ?thesis using assms by (simp add: job1_inv_def)
next
  case (Enqueuing n' ip)
  then show ?thesis using assms by (simp add: job1_inv_def)
next
  case Waiting
  then show ?thesis using assms by (simp add: job1_inv_def)
next
  case Returned
  then show ?thesis using assms by (simp add: job1_inv_def)
qed

lemma job1_step:
  assumes "job_step cfg e (J, c) = Some (J', c', err')"
    and "job1_inv cfg cidr n k (consumed @ c) J"
    and "cfg_concurrency cfg = 1" "cfg_ParseCIDR cfg cidr = Inr n"
  shows "\<exists>k'. job1_inv cfg cidr n k' (consumed @ c') J'"
proof (cases e)
  case Parse
  then obtain c0 where pc: "producer J = Parsing c0"
    using assms(1) by (cases "producer J") simp_all
  then have p: "c0 = cidr" "consumed @ c = []"
    using assms(2) by (simp_all add: job1_inv_def)
  have J': "J' = \<lparr>producer = Enqueuing n (Mask_ip (IP n) (Mask n)), workers = [Receiving]\<rparr>" "c' = c"
    using assms(1,3,4) Parse pc p(1) by simp_all
  have "job1_inv cfg cidr n 0 (consumed @ c') J'"
    unfolding job1_inv_def worker1_inv_def J' using p(2)
    by (simp add: enqueued_after_0 addr_at_0 sent_for_Nil)
  then show ?thesis ..
next
  case (Hand i)
  then obtain n' ip where pe: "producer J = Enqueuing n' ip"
    using assms(1) by (cases "producer J") simp_all
  then have g: "Contains n' ip" "i < length (workers J)" "workers J ! i = Receiving"
    and J': "J' = \<lparr>producer = Enqueuing n' (incrementIP ip), workers = (workers J)[i := Fetching ip]\<rparr>" "c' = c"
    using assms(1) Hand by (simp_all split: if_splits)
  have iv: "n' = n" "ip = addr_at n k" "length (enqueued_after k n) = k"
    using assms(2) pe by (simp_all add: job1_inv_def)
  have w: "workers J = [Receiving]" "worker1_inv cfg n k (consumed @ c) Receiving"
    using job1_worker[OF assms(2) g(2,3)] by simp_all
  have ar: "consumed @ c = sent_for cfg (enqueued_after k n)"
    using w(2) by (simp add: worker1_inv_def)
  have e: "enqueued_after (Suc k) n = enqueued_after k n @ [addr_at n k]"
    using iv g(1) by (simp add: enqueued_after_Suc)
  have "length (enqueued_after (Suc k) n) = Suc k" using e iv(3) by simp
  moreover have "incrementIP ip = addr_at n (Suc k)" using iv(2) by (simp add: addr_at_def)
  moreover have "worker1_inv cfg n (Suc k) (consumed @ c') (Fetching ip)"
    using ar iv(2) J'(2) by (simp add: worker1_inv_def)
  moreover have "(workers J)[i := Fetching ip] = [Fetching ip]"
    using w(1) g(2) by simp
  ultimately have "job1_inv cfg cidr n (Suc k) (consumed @ c') J'"
    unfolding job1_inv_def J'(1) using iv(1) by simp
  then show ?thesis ..
next
  case CloseIpChan
  then obtain n' ip where pe: "producer J = Enqueuing n' ip"
    using assms(1) by (cases "producer J") simp_all
  then have g: "\<not> Contains n' ip" and J': "J' = J\<lparr>producer := Waiting\<rparr>" "c' = c"
    using assms(1) CloseIpChan by (simp_all split: if_splits)
  have "job1_inv cfg cidr n k (consumed @ c') J'"
    using assms(2) pe g J' by (simp add: job1_inv_def)
  then show ?thesis ..
next
  case (Fetch i)
  then have il: "i < length (workers J)" using assms(1) by (simp split: if_splits)
  then obtain ip where wi: "workers J ! i = Fetching ip"
    using assms(1) Fetch by (cases "workers J ! i") simp_all
  let ?w' = "Forwarding (fetchHostnamesFromShodan (cfg_client cfg) ip)"
  have J': "J' = J\<lparr>workers := (workers J)[i := ?w']\<rparr>" "c' = c"
    using assms(1) Fetch il wi by simp_all
  have w: "workers J = [Fetching ip]" "worker1_inv cfg n k (consumed @ c) (Fetching ip)"
    using job1_worker[OF assms(2) il wi] by simp_all
  have k: "length (enqueued_after k n) = k" using assms(2) by (simp add: job1_inv_def)
  from w(2) have k0: "0 < k" and ip: "ip = addr_at n (k - 1)"
     and ar: "consumed @ c = sent_for cfg (enqueued_after (k - 1) n)"
    by (simp_all add: worker1_inv_def)
  obtain k1 where k1: "k = Suc k1" using k0 by (cases k) auto
  have "length (enqueued_after k1 n) = k1 \<and> Contains n (addr_at n k1)"
    using k k1 enqueued_after_Suc[of k1 n] length_enqueued_after_le[of k1 n]
    by (auto split: if_splits)
  then have "enqueued_after k n = enqueued_after k1 n @ [addr_at n k1]"
    using k1 by (simp add: enqueued_after_Suc)
  then have "worker1_inv cfg n k (consumed @ c') ?w'"
    using ar ip k1 J'(2) by (simp add: worker1_inv_def sent_for_snoc)
  then have "job1_inv cfg cidr n k (consumed @ c') (J\<lparr>workers := [?w']\<rparr>)"
    using job1_worker_update[OF assms(2) w(1)] by simp
  moreover have "(workers J)[i := ?w'] = [?w']" using w(1) il by simp
  ultimately show ?thesis using J'(1) by auto
next
  case (Examine i)
  then have il: "i < length (workers J)" using assms(1) by (simp split: if_splits)
  then obtain h hs where wi: "workers J ! i = Forwarding (h # hs)"
    using assms(1) Examine by (auto split: worker_state.splits list.splits)
  have w: "workers J = [Forwarding (h # hs)]" "worker1_inv cfg n k (consumed @ c) (Forwarding (h # hs))"
    using job1_worker[OF assms(2) il wi] by simp_all
  have J': "J' = J\<lparr>workers := (workers J)[i := Forwarding hs]\<rparr>"
    using assms(1) Examine il wi by (simp split: if_splits)
  have "worker1_inv cfg n k (consumed @ c') (Forwarding hs)"
    using assms(1) Examine il wi w(2) by (auto simp: worker1_inv_def split: if_splits)
  then have "job1_inv cfg cidr n k (consumed @ c') (J\<lparr>workers := [Forwarding hs]\<rparr>)"
    using job1_worker_update[OF assms(2) w(1)] by simp
  moreover have "(workers J)[i := Forwarding hs] = [Forwarding hs]" using w(1) il by simp
  ultimately show ?thesis using J' by auto
next
  case (Next i)
  then have il: "i < length (workers J)" and wi: "workers J ! i = Forwarding []"
     and J': "J' = J\<lparr>workers := (workers J)[i := Receiving]\<rparr>" "c' = c"
    using assms(1) by (simp_all split: if_splits)
  have w: "workers J = [Forwarding []]" "worker1_inv cfg n k (consumed @ c) (Forwarding [])"
    using job1_worker[OF assms(2) il wi] by simp_all
  have "worker1_inv cfg n k (consumed @ c') Receiving"
    using w(2) J'(2) by (simp add: worker1_inv_def)
  then have "job1_inv cfg cidr n k (consumed @ c') (J\<lparr>workers := [Receiving]\<rparr>)"
    using job1_worker_update[OF assms(2) w(1)] by simp
  moreover have "(workers J)[i := Receiving] = [Receiving]" using w(1) il by simp
  ultimately show ?thesis using J'(1) by auto
next
  case (Finish i)
  then have il: "i < length (workers J)" and wi: "workers J ! i = Receiving"
     and pw: "producer J = Waiting"
     and J': "J' = J\<lparr>workers := (workers J)[i := Finished]\<rparr>" "c' = c"
    using assms(1) by (simp_all split: if_splits)
  have w: "workers J = [Receiving]" "worker1_inv cfg n k (consumed @ c) Receiving"
    using job1_worker[OF assms(2) il wi] by simp_all
  have "(workers J)[i := Finished] = [Finished]" using w(1) il by simp
  then have "job1_inv cfg cidr n k (consumed @ c') J'"
    using assms(2) pw w(2) J' by (simp add: job1_inv_def worker1_inv_def)
  then show ?thesis ..
next
  case Return
  then have pw: "producer J = Waiting" and fin: "list_all (\<lambda>w. w = Finished) (workers J)"
     and J': "J' = J\<lparr>producer := Returned\<rparr>" "c' = c"
    using assms(1) by (simp_all split: if_splits)
  have iv: "length (workers J) = 1" "worker1_inv cfg n k (consumed @ c) (hd (workers J))"
      "\<not> Contains n (addr_at n k)" "length (enqueued_after k n) = k"
    using assms(2) pw by (simp_all add: job1_inv_def)
  have wf: "workers J = [Finished]" using iv(1) fin by (cases "workers J") auto
  then have "consumed @ c = sent_for cfg (enqueued_after k n)"
    using iv(2) by (simp add: worker1_inv_def)
  then have "job1_inv cfg cidr n k (consumed @ c') J'"
    using iv(3,4) wf J' by (simp add: job1_inv_def)
  then show ?thesis ..
qed

lemma job1_Returned_stuck:
  assumes "job1_inv cfg cidr n k arrived J" "producer J = Returned"
  shows "job_step cfg e (J, c) = None"
proof -
  have "workers J = [Finished]" using assms by (simp add: job1_inv_def)
  then show ?thesis using assms(2) by (cases e) (auto simp: nth_Cons split: nat.splits)
qed

lemma system1_step:
  assumes "sched_step cfg s e = Some s'"
    and "system1_inv cfg cidr n k consumed s"
    and "cfg_concurrency cfg = 1" "cfg_ParseCIDR cfg cidr = Inr n"
  shows "\<exists>k' consumed'. system1_inv cfg cidr n k' consumed' s'"
proof (cases e)
  case (Job j je)
  then obtain J' c' err' where l: "j < length (jobs s)"
    and st: "job_step cfg je (jobs s ! j, ch s) = Some (J', c', err')"
    and s': "s' = s\<lparr>jobs := (jobs s)[j := J'], ch := c', stderr := stderr s @ err'\<rparr>"
    using assms(1) sched_step_Job by blast
  have iv: "length (jobs s) = 1" "uniqueResults s = set consumed" "stdout s = printed consumed"
      "ch_closed s \<longrightarrow> producer (hd (jobs s)) = Returned"
      "job1_inv cfg cidr n k (consumed @ ch s) (hd (jobs s))"
    using assms(2) by (simp_all add: system1_inv_def)
  have j: "jobs s ! j = hd (jobs s)" "(jobs s)[j := J'] = [J']"
    using l iv(1) singleton_update_nth[of "jobs s" j J'] by simp_all
  have ji: "job1_inv cfg cidr n k (consumed @ ch s) (jobs s ! j)"
    using iv(5) j(1) by simp
  obtain k' where k': "job1_inv cfg cidr n k' (consumed @ c') J'"
    using job1_step[OF st ji assms(3,4)] by blast
  have nc: "\<not> ch_closed s"
  proof
    assume "ch_closed s"
    then have "producer (jobs s ! j) = Returned" using iv(4) j(1) by simp
    then show False using st job1_Returned_stuck[OF ji] by simp
  qed
  have "system1_inv cfg cidr n k' consumed s'"
    unfolding system1_inv_def s' using iv(2,3) j(2) k' nc by simp
  then show ?thesis by blast
next
  case CloseCh
  then have r: "list_all (\<lambda>J. producer J = Returned) (jobs s)" and s': "s' = s\<lparr>ch_closed := True\<rparr>"
    using assms(1) by (simp_all split: if_splits)
  have "length (jobs s) = 1" using assms(2) by (simp add: system1_inv_def)
  then have "producer (hd (jobs s)) = Returned" using r by (cases "jobs s") simp_all
  then have "system1_inv cfg cidr n k consumed s'"
    using assms(2) unfolding system1_inv_def s' by simp
  then show ?thesis by blast
next
  case Print
  then obtain result rest where c: "ch s = result # rest"
    and s': "s' = s\<lparr>ch := rest, uniqueResults := fst (print_unique (uniqueResults s, stdout s) result),
                  stdout := snd (print_unique (uniqueResults s, stdout s) result)\<rparr>"
    using assms(1) sched_step_Print by blast
  have iv: "length (jobs s) = 1" "uniqueResults s = set consumed" "stdout s = printed consumed"
      "ch_closed s \<longrightarrow> producer (hd (jobs s)) = Returned"
      "job1_inv cfg cidr n k (consumed @ ch s) (hd (jobs s))"
    using assms(2) by (simp_all add: system1_inv_def)
  have pu: "print_unique (set consumed, printed consumed) result
        = (set (consumed @ [result]), printed (consumed @ [result]))"
    by (auto simp: print_unique_def printed_snoc)
  have "system1_inv cfg cidr n k (consumed @ [result]) s'"
    unfolding system1_inv_def s' using iv c pu by simp
  then show ?thesis by blast
qed

lemma system1_run:
  assumes "cfg_concurrency cfg = 1" "cfg_ParseCIDR cfg cidr = Inr n"
  shows "run cfg s es = Some s' \<Longrightarrow> system1_inv cfg cidr n k consumed s \<Longrightarrow>
         \<exists>k' consumed'. system1_inv cfg cidr n k' consumed' s'"
proof (induction es arbitrary: s k consumed)
  case Nil then show ?case by auto
next
  case (Cons e es)
  then obtain s1 where s1: "sched_step cfg s e = Some s1" "run cfg s1 es = Some s'"
    by (auto split: option.splits)
  obtain k1 consumed1 where "system1_inv cfg cidr n k1 consumed1 s1"
    using system1_step[OF s1(1) Cons.prems(2) assms] by blast
  then show ?case using Cons.IH[OF s1(2)] by blast
qed

lemma system1_init: "system1_inv cfg cidr n 0 [] (init_system [cidr])"
  by (simp add: system1_inv_def init_system_def job1_inv_def printed_Nil enqueued_after_def)

lemma job1_arrived_prefix:
  assumes "job1_inv cfg cidr n k arrived J"
  shows "\<exists>k' m. length (enqueued_after k' n) = k' \<and> arrived = take m (sent_for cfg (enqueued_after k' n))"
proof -
  have k: "length (enqueued_after k n) = k" using assms by (simp add: job1_inv_def)
  have full: "arrived = sent_for cfg (enqueued_after k n) \<Longrightarrow> ?thesis"
  proof -
    assume "arrived = sent_for cfg (enqueued_after k n)"
    then have "arrived = take (length arrived) (sent_for cfg (enqueued_after k n))" by simp
    then show ?thesis using k by blast
  qed
  have w: "worker1_inv cfg n k arrived w \<Longrightarrow> ?thesis" for w
  proof (cases w)
    case Receiving
    assume "worker1_inv cfg n k arrived w"
    then show ?thesis using Receiving full by (simp add: worker1_inv_def)
  next
    case (Fetching ip)
    assume "worker1_inv cfg n k arrived w"
    then have a: "0 < k" "arrived = sent_for cfg (enqueued_after (k - 1) n)"
      using Fetching by (simp_all add: worker1_inv_def)
    then obtain k1 where k1: "k = Suc k1" by (cases k) auto
    have "length (enqueued_after k1 n) = k1"
      using k k1 enqueued_after_Suc[of k1 n] length_enqueued_after_le[of k1 n]
      by (auto split: if_splits)
    moreover have "arrived = take (length arrived) (sent_for cfg (enqueued_after k1 n))"
      using a k1 by simp
    ultimately show ?thesis by blast
  next
    case (Forwarding hs)
    assume "worker1_inv cfg n k arrived w"
    then have "arrived @ forward_hostnames (cfg_filter cfg) (cfg_match cfg) hs = sent_for cfg (enqueued_after k n)"
      using Forwarding by (simp add: worker1_inv_def)
    then have "arrived = take (length arrived) (sent_for cfg (enqueued_after k n))"
      by (metis append_eq_conv_conj)
    then show ?thesis using k by blast
  next
    case Finished
    assume "worker1_inv cfg n k arrived w"
    then show ?thesis using Finished full by (simp add: worker1_inv_def)
  qed
  show ?thesis
  proof (cases "producer J")
    case (Parsing c)
    then have "arrived = take 0 (sent_for cfg (enqueued_after k n))" using assms by (simp add: job1_inv_def)
    then show ?thesis using k by blast
  next
    case (Enqueuing n' ip)
    then show ?thesis using assms w by (auto simp: job1_inv_def)
  next
    case Waiting
    then show ?thesis using assms w by (auto simp: job1_inv_def)
  next
    case Returned
    then show ?thesis using assms full by (auto simp: job1_inv_def)
  qed
qed

lemma ch_capacity_one: "cfg_concurrency cfg = 1 \<Longrightarrow> ch_capacity cfg = 10"
  by (simp add: ch_capacity_def ch_size_def int64_mul_def)

lemma main_start_one:
  "cfg_concurrency cfg = 1 \<Longrightarrow> main_start cfg cidrList = Inr (init_system cidrList)"
  by (simp add: main_start_def ch_size_def int64_mul_def)

lemma system1_progress:
  assumes "system1_inv cfg cidr n k consumed s" "cfg_concurrency cfg = 1"
  shows "(ch_closed s \<and> ch s = []) \<or> (\<exists>e s'. sched_step cfg s e = Some s')"
proof -
  have iv: "length (jobs s) = 1" "ch_closed s \<longrightarrow> producer (hd (jobs s)) = Returned"
      "job1_inv cfg cidr n k (consumed @ ch s) (hd (jobs s))"
    using assms(1) by (simp_all add: system1_inv_def)
  let ?J = "hd (jobs s)"
  have J0: "jobs s ! 0 = ?J" "0 < length (jobs s)" using iv(1) by (cases "jobs s"; simp)+
  have job: "job_step cfg je (?J, ch s) = Some r \<Longrightarrow> \<exists>e s'. sched_step cfg s e = Some s'" for je r
  proof -
    assume a: "job_step cfg je (?J, ch s) = Some r"
    obtain J' c' l' where "r = (J', c', l')" by (cases r)
    then have "sched_step cfg s (Job 0 je)
       = Some (s\<lparr>jobs := (jobs s)[0 := J'], ch := c', stderr := stderr s @ l'\<rparr>)"
      using a J0 by simp
    then show ?thesis by blast
  qed
  have pr: "ch s \<noteq> [] \<Longrightarrow> \<exists>e s'. sched_step cfg s e = Some s'"
  proof -
    assume "ch s \<noteq> []"
    then obtain r rest where "ch s = r # rest" by (cases "ch s") auto
    then have "\<exists>s'. sched_step cfg s Print = Some s'" by (simp add: case_prod_beta)
    then show ?thesis by blast
  qed
  have wk: "\<exists>e s'. sched_step cfg s e = Some s'"
    if w: "workers ?J = [w]" and nf: "w \<noteq> Finished"
      and rc: "w = Receiving \<Longrightarrow> \<exists>je r. job_step cfg je (?J, ch s) = Some r" for w
  proof (cases w)
    case Receiving
    then show ?thesis using rc job by blast
  next
    case (Fetching ip)
    then have "\<exists>r. job_step cfg (Fetch 0) (?J, ch s) = Some r" using w by simp
    then show ?thesis using job by blast
  next
    case (Forwarding hs)
    show ?thesis
    proof (cases hs)
      case Nil
      then have "\<exists>r. job_step cfg (Next 0) (?J, ch s) = Some r" using w Forwarding by simp
      then show ?thesis using job by blast
    next
      case (Cons h hs')
      show ?thesis
      proof (cases "ch s = []")
        case True
        then have "length (ch s) < ch_capacity cfg" using assms(2) by (simp add: ch_capacity_one)
        then have "\<exists>r. job_step cfg (Examine 0) (?J, ch s) = Some r"
          using w Forwarding Cons by simp
        then show ?thesis using job by blast
      next
        case False then show ?thesis using pr by simp
      qed
    qed
  next
    case Finished
    then show ?thesis using nf by simp
  qed
  show ?thesis
  proof (cases "producer ?J")
    case (Parsing c)
    then have "\<exists>r. job_step cfg Parse (?J, ch s) = Some r"
      by (cases "cfg_ParseCIDR cfg c") simp_all
    then show ?thesis using job by blast
  next
    case (Enqueuing n' ip)
    then have l: "length (workers ?J) = 1" and nf: "hd (workers ?J) \<noteq> Finished"
      using iv(3) by (simp_all add: job1_inv_def)
    then obtain w where w: "workers ?J = [w]" "w \<noteq> Finished" by (cases "workers ?J") auto
    show ?thesis
    proof (cases "Contains n' ip")
      case True
      have "w = Receiving \<Longrightarrow> \<exists>je r. job_step cfg je (?J, ch s) = Some r"
      proof -
        assume "w = Receiving"
        then have "\<exists>r. job_step cfg (Hand 0) (?J, ch s) = Some r"
          using Enqueuing True w by simp
        then show ?thesis by blast
      qed
      then show ?thesis using wk[OF w] by blast
    next
      case False
      then have "\<exists>r. job_step cfg CloseIpChan (?J, ch s) = Some r" using Enqueuing by simp
      then show ?thesis using job by blast
    qed
  next
    case Waiting
    then have l: "length (workers ?J) = 1" using iv(3) by (simp add: job1_inv_def)
    then obtain w where w: "workers ?J = [w]" by (cases "workers ?J") auto
    show ?thesis
    proof (cases "w = Finished")
      case True
      then have "\<exists>r. job_step cfg Return (?J, ch s) = Some r" using Waiting w by simp
      then show ?thesis using job by blast
    next
      case False
      have "w = Receiving \<Longrightarrow> \<exists>je r. job_step cfg je (?J, ch s) = Some r"
      proof -
        assume "w = Receiving"
        then have "\<exists>r. job_step cfg (Finish 0) (?J, ch s) = Some r"
          using Waiting w by simp
        then show ?thesis by blast
      qed
      then show ?thesis using wk[OF w False] by blast
    qed
  next
    case Returned
    show ?thesis
    proof (cases "ch_closed s")
      case True
      then show ?thesis using pr by blast
    next
      case False
      have "list_all (\<lambda>J. producer J = Returned) (jobs s)"
        using Returned iv(1) by (cases "jobs s") simp_all
      then have "\<exists>s'. sched_step cfg s CloseCh = Some s'" using False by simp
      then show ?thesis by blast
    qed
  qed
qed

text \<open>
  Claim C8. With one worker and one range, under any schedule: what has been printed
  is what the sequential loop over the first \<open>k\<close> addresses of the range, in the order
  of the enqueuing loop, has printed after some number of hostnames; when the program
  has ended, the enqueuing loop has ended too and what was printed is what the
  sequential loop prints over all the addresses of the range; the program is never
  stuck before its end; and the order of the enqueuing loop is the increasing one:
  the first \<open>j\<close> addresses of an IPv4 range are the network address and the \<open>j - 1\<close>
  that follow it.
\<close>

theorem one_worker_is_sequential:
  assumes "cfg_concurrency cfg = 1" "cfg_ParseCIDR cfg cidr = Inr n"
    and "run cfg (init_system [cidr]) schedule = Some s"
  shows "(\<exists>k m. length (enqueued_after k n) = k
            \<and> stdout s = printed (take m (snd (worker (cfg_filter cfg) (cfg_match cfg) (cfg_client cfg)
                                                  (enqueued_after k n)))))
       \<and> (ch_closed s \<and> ch s = [] \<longrightarrow>
            (\<exists>addrs. enqueue_all n = Some addrs
               \<and> stdout s = sequential_scan (cfg_filter cfg) (cfg_match cfg) (cfg_client cfg) addrs))
       \<and> ((ch_closed s \<and> ch s = []) \<or> (\<exists>e s'. sched_step cfg s e = Some s'))
       \<and> (n = ipv4_net a p \<and> length a = 4 \<and> p \<le> 32 \<and> j \<le> 2 ^ (32 - p) \<longrightarrow>
            map ip_val (enqueued_after j n) = [ip_val (IP n) ..< ip_val (IP n) + j])"
proof -
  obtain k consumed where inv: "system1_inv cfg cidr n k consumed s"
    using system1_run[OF assms(1,2) assms(3) system1_init] by blast
  then have iv: "length (jobs s) = 1" "stdout s = printed consumed"
      "ch_closed s \<longrightarrow> producer (hd (jobs s)) = Returned"
      "job1_inv cfg cidr n k (consumed @ ch s) (hd (jobs s))"
    by (simp_all add: system1_inv_def)
  obtain k' m where p: "length (enqueued_after k' n) = k'"
      "consumed @ ch s = take m (sent_for cfg (enqueued_after k' n))"
    using job1_arrived_prefix[OF iv(4)] by blast
  have "consumed = take (length consumed) (consumed @ ch s)" by simp
  also have "\<dots> = take (min (length consumed) m) (sent_for cfg (enqueued_after k' n))"
    by (simp only: p(2) take_take)
  finally have "stdout s = printed (take (min (length consumed) m)
       (snd (worker (cfg_filter cfg) (cfg_match cfg) (cfg_client cfg) (enqueued_after k' n))))"
    using iv(2) by (simp add: sent_for_def)
  then have part1: "\<exists>k m. length (enqueued_after k n) = k
            \<and> stdout s = printed (take m (snd (worker (cfg_filter cfg) (cfg_match cfg) (cfg_client cfg)
                                                  (enqueued_after k n))))"
    using p(1) by blast
  have part2: "\<exists>addrs. enqueue_all n = Some addrs
               \<and> stdout s = sequential_scan (cfg_filter cfg) (cfg_match cfg) (cfg_client cfg) addrs"
    if "ch_closed s \<and> ch s = []"
  proof -
    have r: "producer (hd (jobs s)) = Returned" using that iv(3) by simp
    then have f: "\<not> Contains n (addr_at n k)" "consumed = sent_for cfg (enqueued_after k n)"
        "length (enqueued_after k n) = k"
      using iv(4) that by (simp_all add: job1_inv_def)
    have e: "enqueued_after (Suc k) n = enqueued_after k n" using f(1) by (simp add: enqueued_after_Suc)
    then have "length (enqueue_steps (Suc k) n (Mask_ip (IP n) (Mask n))) < Suc k"
      using f(3) by (simp add: enqueued_after_def)
    then have "enqueue n (Mask_ip (IP n) (Mask n)) [] = Some ([] @ enqueue_steps (Suc k) n (Mask_ip (IP n) (Mask n)))"
      by (rule enqueue_steps_finished)
    then have "enqueue_all n = Some (enqueued_after k n)"
      using e by (simp add: enqueue_all_def enqueued_after_def)
    moreover have "stdout s = sequential_scan (cfg_filter cfg) (cfg_match cfg) (cfg_client cfg) (enqueued_after k n)"
      using iv(2) f(2) by (simp add: sequential_scan_def sent_for_def)
    ultimately show ?thesis by blast
  qed
  have part4: "map ip_val (enqueued_after j n) = [ip_val (IP n) ..< ip_val (IP n) + j]"
    if "n = ipv4_net a p \<and> length a = 4 \<and> p \<le> 32 \<and> j \<le> 2 ^ (32 - p)"
    using that enqueued_after_ascending[of a p j] by simp
  show ?thesis using part1 part2 system1_progress[OF inv assms(1)] part4 by blast
qed

lemma scenario_run:
  "map_option (\<lambda>s. (stdout s, ch_closed s, ch s))
     (run scenario_config (init_system [''10.0.0.0/31'']) scenario_schedule)
   = Some ([''a.example.com'', ''b.example.com''], True, [])"
  by code_simp

lemma scenario_enqueue: "enqueue_all (ipv4_net [10, 0, 0, 0] 31) = Some [[10, 0, 0, 0], [10, 0, 0, 1]]"
  by code_simp

theorem one_worker_is_sequential_witness:
  "cfg_concurrency scenario_config = 1
   \<and> cfg_ParseCIDR scenario_config ''10.0.0.0/31'' = Inr (ipv4_net [10, 0, 0, 0] 31)
   \<and> map_option stdout (run scenario_config (init_system [''10.0.0.0/31'']) scenario_schedule)
       = Some (sequential_scan None None scenario_client [[10, 0, 0, 0], [10, 0, 0, 1]])
   \<and> map_option stdout (run scenario_config (init_system [''10.0.0.0/31'']) scenario_schedule)
       = Some [''a.example.com'', ''b.example.com'']"
proof -
  have h1: "cfg_concurrency scenario_config = 1" by (simp add: scenario_config_def)
  have h2: "cfg_ParseCIDR scenario_config ''10.0.0.0/31'' = Inr (ipv4_net [10, 0, 0, 0] 31)"
    by (simp add: scenario_config_def scenario_ParseCIDR_def)
  obtain s where s: "run scenario_config (init_system [''10.0.0.0/31'']) scenario_schedule = Some s"
    and o: "stdout s = [''a.example.com'', ''b.example.com'']" "ch_closed s" "ch s = []"
    using scenario_run by (cases "run scenario_config (init_system [''10.0.0.0/31'']) scenario_schedule") auto
  have "stdout s = sequential_scan None None scenario_client [[10, 0, 0, 0], [10, 0, 0, 1]]"
    using one_worker_is_sequential [OF h1 h2 s] o(2,3) scenario_enqueue
    by (simp add: scenario_config_def)
  then show ?thesis using h1 h2 s o(1) by simp
qed

section \<open>A malformed range does not stop the others\<close>



















end
